theory Spec2Isabelle
  imports Complex_Main "HOL-Library.Sublist"
begin

section \<open>Strings\<close>

text \<open>
  A JavaScript string is modelled by a \<open>string\<close>: the list of the bytes of its UTF-8
  form. The model joins strings, compares them, tests them for emptiness and writes
  ASCII literals, all of which mean the same on the bytes as on the string. The two
  string methods of the runtime that the source calls, \<open>String.prototype.toLowerCase\<close>
  and \<open>String.prototype.trim\<close>, are not defined here: they are parameters of the model
  (the fields \<open>e_toLowerCase\<close> and \<open>e_trim\<close> of the environment below), so that what is
  proved holds for the methods as the runtime has them, on every string.
\<close>

text \<open>
  The decimal rendering of a number inside a template literal. The numeric id of a
  record is modelled as an integer (the model leaves out NaN, fractions and the
  magnitudes that JavaScript prints in exponent notation).
\<close>

definition digitChar :: "nat \<Rightarrow> char" where
  "digitChar n = ''0123456789'' ! n"

fun digits :: "nat \<Rightarrow> string" where
  "digits n = (if n < 10 then [digitChar n] else digits (n div 10) @ [digitChar (n mod 10)])"

declare digits.simps [simp del]

definition numberToString :: "int \<Rightarrow> string" where
  "numberToString i = (if i < 0 then CHR ''-'' # digits (nat (- i)) else digits (nat i))"

text \<open>JavaScript truthiness of a nullable string: neither null nor empty.\<close>

definition truthy :: "string option \<Rightarrow> bool" where
  "truthy v = (case v of None \<Rightarrow> False | Some s \<Rightarrow> s \<noteq> [])"


section \<open>Data model (types.ts)\<close>

record PlexServerConnection =
  c_protocol :: string
  c_address :: string
  c_port :: int
  c_uri :: string

record PlexResource =
  r_name :: string
  r_provides :: string
  r_machineIdentifier :: string
  r_owned :: bool
  r_product :: string
  r_version :: string
  r_platform :: string
  r_uri :: string
  r_connections :: "PlexServerConnection list"

record PlexServer =
  s_name :: string
  s_friendlyName :: string
  s_machineIdentifier :: string
  s_host :: string
  s_port :: int
  s_scheme :: string
  s_uri :: string
  s_product :: string
  s_version :: string
  s_platform :: string
  s_owned :: bool
  s_accountLabel :: string

record PlexUserAccess =
  u_id :: "int option"
  u_uuid :: "string option"
  u_username :: "string option"
  u_title :: "string option"
  u_email :: "string option"
  u_restricted :: "bool option"
  u_home :: "bool option"
  u_guest :: "bool option"
  u_canInvite :: "bool option"
  u_serverIdentifier :: string
  u_serverName :: string
  u_accountLabel :: string

text \<open>
  An account as the manager's constructor stores it: the client identifier is already
  filled in (given, or derived from the label).
\<close>

record Account =
  a_label :: string
  a_token :: string
  a_clientIdentifier :: string


section \<open>The expiring cache (cache.ts)\<close>

record 'v CacheEntry =
  ce_value :: 'v
  ce_expiresAt :: int

record 'v TTLCache =
  store :: "string \<rightharpoonup> 'v CacheEntry"
  ttlMs :: int

definition newTTLCache :: "int \<Rightarrow> 'v TTLCache" where
  "newTTLCache ttl = \<lparr>store = Map.empty, ttlMs = ttl\<rparr>"

text \<open>
  \<open>TTLCache_get now c key\<close>: \<open>now\<close> is what \<open>Date.now()\<close> returns when \<open>get\<close> reads
  the clock, which it does only when the key has an entry.
\<close>

definition TTLCache_get :: "int \<Rightarrow> 'v TTLCache \<Rightarrow> string \<Rightarrow> 'v option \<times> 'v TTLCache" where
  "TTLCache_get now c key =
     (case store c key of
        None \<Rightarrow> (None, c)
      | Some entry \<Rightarrow>
          if now > ce_expiresAt entry
          then (None, c\<lparr>store := (store c)(key := None)\<rparr>)
          else (Some (ce_value entry), c))"

definition TTLCache_set :: "int \<Rightarrow> 'v TTLCache \<Rightarrow> string \<Rightarrow> 'v \<Rightarrow> 'v TTLCache" where
  "TTLCache_set now c key v =
     c\<lparr>store := (store c)(key \<mapsto> \<lparr>ce_value = v, ce_expiresAt = now + ttlMs c\<rparr>)\<rparr>"

definition TTLCache_clear :: "'v TTLCache \<Rightarrow> string option \<Rightarrow> 'v TTLCache" where
  "TTLCache_clear c key =
     (case key of
        None \<Rightarrow> c\<lparr>store := Map.empty\<rparr>
      | Some k \<Rightarrow> c\<lparr>store := (store c)(k := None)\<rparr>)"


section \<open>Deduplication of one server's user records (plexClient.ts, fetchServerUsers)\<close>

definition keySource :: "PlexUserAccess \<Rightarrow> string" where
  "keySource user =
     (case u_email user of
        Some e \<Rightarrow> e
      | None \<Rightarrow>
         (case u_uuid user of
            Some x \<Rightarrow> x
          | None \<Rightarrow>
             (if truthy (u_username user)
              then u_serverIdentifier user @ ''-'' @ the (u_username user)
              else u_serverIdentifier user @ ''-'' @
                     (case u_id user of Some n \<Rightarrow> numberToString n | None \<Rightarrow> ''unknown''))))"

text \<open>
  \<open>keySource.toLowerCase()\<close>, with the runtime's \<open>toLowerCase\<close> as the first argument.
\<close>

definition userKey :: "(string \<Rightarrow> string) \<Rightarrow> PlexUserAccess \<Rightarrow> string" where
  "userKey toLowerCase user = toLowerCase (keySource user)"

text \<open>
  The \<open>Map\<close> named \<open>deduped\<close> keeps its keys in insertion order, so it is an association
  list that grows at the end; a key is only ever set when it is absent.
\<close>

fun dedupe_loop ::
  "(string \<Rightarrow> string) \<Rightarrow> PlexUserAccess list \<Rightarrow> (string \<times> PlexUserAccess) list
     \<Rightarrow> (string \<times> PlexUserAccess) list" where
  "dedupe_loop toLowerCase [] deduped = deduped"
| "dedupe_loop toLowerCase (user # rest) deduped =
     (let key = userKey toLowerCase user in
      if key \<in> fst ` set deduped
      then dedupe_loop toLowerCase rest deduped
      else dedupe_loop toLowerCase rest (deduped @ [(key, user)]))"

definition dedupeUsers :: "(string \<Rightarrow> string) \<Rightarrow> PlexUserAccess list \<Rightarrow> PlexUserAccess list" where
  "dedupeUsers toLowerCase results = map snd (dedupe_loop toLowerCase results [])"

text \<open>
  \<open>mergeServerUsers toLowerCase local shared\<close>: \<open>local\<close> are the records pushed while reading the
  server's own account listing, \<open>shared\<close> those pushed while reading the shared-access
  listing (either list is cut short, possibly empty, when its request fails).
\<close>

definition mergeServerUsers ::
  "(string \<Rightarrow> string) \<Rightarrow> PlexUserAccess list \<Rightarrow> PlexUserAccess list \<Rightarrow> PlexUserAccess list" where
  "mergeServerUsers toLowerCase local shared = dedupeUsers toLowerCase (local @ shared)"


section \<open>The outside world\<close>

text \<open>
  Every remote request the client makes is appended to a trace, together with a marker
  for each invocation of \<open>connectToServer\<close> (which may make no request at all). What
  the remote service answers is a function of the trace up to and including the request,
  so that any sequence of answers can be described; the clock is a function of the
  number of times \<open>Date.now()\<close> has been read.

  The requests carry the token and the client identifier passed to \<open>request\<close>, after
  the URI, machine identifier or PIN id that makes up their address; the marker carries
  the machine identifier of the resource and the account label.
\<close>

datatype call =
    ValidateRequest string string
  | ResourcesRequest string string
  | ConnectCalled string string
  | ConnectionRequest string string string
  | AccountsRequest string string string
  | SharedServersRequest string string string
  | CreatePinRequest string
  | CheckPinRequest int string

text \<open>
  The answer to \<open>/users/account.json\<close>: the request fails, the body has no user, or it
  has one with (possibly missing) username, title and email.
\<close>

datatype validate_response =
    ValidateFailed
  | ValidateNoUser
  | ValidateUser "string option" "string option" "string option"

text \<open>
  The answer of one connection endpoint: the request fails, the body has no
  \<open>MediaContainer\<close>, or it has one with a (possibly missing) friendly name.
\<close>

datatype connection_response =
    ConnectionFailed
  | ConnectionNoContainer
  | ConnectionContainer "string option"

text \<open>
  The answer to a PIN request: the request fails with a message, the body has no
  \<open>pin\<close>, or it has one with id, code, expiry and (possibly missing) token.
\<close>

datatype pin_response =
    PinFailed string
  | PinMissing
  | PinData int string string "string option"

datatype error =
    NoAccountFound string
  | RequestFailed string
  | TypeError

text \<open>
  One node of a user listing, after \<open>mapAccountNode\<close> has read its attributes under
  their alternative names and normalised the numbers and booleans.
\<close>

record UserNode =
  n_id :: "int option"
  n_uuid :: "string option"
  n_username :: "string option"
  n_title :: "string option"
  n_email :: "string option"
  n_restricted :: "bool option"
  n_home :: "bool option"
  n_guest :: "bool option"
  n_canInvite :: "bool option"

text \<open>
  The environment of a manager. \<open>e_resources\<close> is what \<open>getResources\<close> returns: the
  media server devices of the answer, none when the request or its parsing fails.
  \<open>e_accounts\<close> and \<open>e_shared\<close> are the nodes for which \<open>fetchServerUsers\<close> pushes
  a record while it reads the server's own account listing and the shared-server
  listing (the shared users of an entry, or the entry itself when it has none): all
  nodes of the answer, or those read before the request or its parsing fails.
  \<open>e_uuid\<close> is \<open>uuidv4()\<close>, \<open>e_encodeParams\<close> the serialisation of
  \<open>URLSearchParams\<close>, \<open>e_toLowerCase\<close> and \<open>e_trim\<close> the string methods
  \<open>toLowerCase\<close> and \<open>trim\<close> of the runtime.
\<close>

record env =
  e_now :: "nat \<Rightarrow> int"
  e_uuid :: "call list \<Rightarrow> string"
  e_validate :: "call list \<Rightarrow> validate_response"
  e_resources :: "call list \<Rightarrow> PlexResource list"
  e_connection :: "call list \<Rightarrow> connection_response"
  e_accounts :: "call list \<Rightarrow> UserNode list"
  e_shared :: "call list \<Rightarrow> UserNode list"
  e_createPin :: "call list \<Rightarrow> pin_response"
  e_checkPin :: "call list \<Rightarrow> pin_response"
  e_encodeParams :: "(string \<times> string) list \<Rightarrow> string"
  e_toLowerCase :: "string \<Rightarrow> string"
  e_trim :: "string \<Rightarrow> string"

text \<open>
  The state of a manager: its two cache tiers, the trace of what it has asked of the
  remote service, and how often it has read the clock.
\<close>

record mstate =
  serverCache :: "PlexServer list TTLCache"
  userCache :: "PlexUserAccess list TTLCache"
  trace :: "call list"
  reads :: nat

definition request :: "call \<Rightarrow> mstate \<Rightarrow> mstate" where
  "request c st = st\<lparr>trace := trace st @ [c]\<rparr>"


section \<open>The directory client (plexClient.ts)\<close>

definition PLEX_PRODUCT :: string where "PLEX_PRODUCT = ''Plex MCP Account Finder''"
definition PLEX_VERSION :: string where "PLEX_VERSION = ''0.1.0''"
definition PLEX_DEVICE :: string where "PLEX_DEVICE = ''MCP''"

definition tokenInfo :: "validate_response \<Rightarrow> (string option \<times> string option) option" where
  "tokenInfo response =
     (case response of
        ValidateFailed \<Rightarrow> None
      | ValidateNoUser \<Rightarrow> None
      | ValidateUser username title email \<Rightarrow>
          Some (if truthy username then username else title, email))"

definition validateToken ::
  "env \<Rightarrow> string \<Rightarrow> string \<Rightarrow> mstate \<Rightarrow> (string option \<times> string option) option \<times> mstate" where
  "validateToken env token clientIdentifier st =
     (let st1 = request (ValidateRequest token clientIdentifier) st
      in (tokenInfo (e_validate env (trace st1)), st1))"

definition getResources :: "env \<Rightarrow> string \<Rightarrow> string \<Rightarrow> mstate \<Rightarrow> PlexResource list \<times> mstate" where
  "getResources env token clientIdentifier st =
     (let st1 = request (ResourcesRequest token clientIdentifier) st in
      (e_resources env (trace st1), st1))"

fun connect_loop ::
  "env \<Rightarrow> PlexResource \<Rightarrow> string \<Rightarrow> string \<Rightarrow> string \<Rightarrow> PlexServerConnection list \<Rightarrow> mstate
     \<Rightarrow> PlexServer option \<times> mstate" where
  "connect_loop env resource token accountLabel clientIdentifier [] st = (None, st)"
| "connect_loop env resource token accountLabel clientIdentifier (connection # rest) st =
     (if c_uri connection = [] then
        connect_loop env resource token accountLabel clientIdentifier rest st
      else
        let st1 = request (ConnectionRequest (c_uri connection) token clientIdentifier) st in
        case e_connection env (trace st1) of
          ConnectionContainer friendlyName \<Rightarrow>
            (Some \<lparr>s_name = r_name resource,
                   s_friendlyName = (if truthy friendlyName then the friendlyName else r_name resource),
                   s_machineIdentifier = r_machineIdentifier resource,
                   s_host = c_address connection,
                   s_port = c_port connection,
                   s_scheme = c_protocol connection,
                   s_uri = c_uri connection,
                   s_product = r_product resource,
                   s_version = r_version resource,
                   s_platform = r_platform resource,
                   s_owned = r_owned resource,
                   s_accountLabel = accountLabel\<rparr>, st1)
        | ConnectionNoContainer \<Rightarrow>
            connect_loop env resource token accountLabel clientIdentifier rest st1
        | ConnectionFailed \<Rightarrow>
            connect_loop env resource token accountLabel clientIdentifier rest st1)"

definition connectToServer ::
  "env \<Rightarrow> PlexResource \<Rightarrow> string \<Rightarrow> string \<Rightarrow> string \<Rightarrow> mstate \<Rightarrow> PlexServer option \<times> mstate" where
  "connectToServer env resource token accountLabel clientIdentifier st =
     connect_loop env resource token accountLabel clientIdentifier (r_connections resource)
       (request (ConnectCalled (r_machineIdentifier resource) accountLabel) st)"

definition mapAccountNode :: "UserNode \<Rightarrow> PlexServer \<Rightarrow> string \<Rightarrow> PlexUserAccess" where
  "mapAccountNode node server accountLabel =
     \<lparr>u_id = n_id node, u_uuid = n_uuid node, u_username = n_username node,
      u_title = n_title node, u_email = n_email node, u_restricted = n_restricted node,
      u_home = n_home node, u_guest = n_guest node, u_canInvite = n_canInvite node,
      u_serverIdentifier = s_machineIdentifier server,
      u_serverName = s_friendlyName server,
      u_accountLabel = accountLabel\<rparr>"

definition fetchServerUsers ::
  "env \<Rightarrow> PlexServer \<Rightarrow> string \<Rightarrow> string \<Rightarrow> mstate \<Rightarrow> PlexUserAccess list \<times> mstate" where
  "fetchServerUsers env server token clientIdentifier st =
     (let st1 = request (AccountsRequest (s_uri server) token clientIdentifier) st;
          local = map (\<lambda>node. mapAccountNode node server (s_accountLabel server))
                    (e_accounts env (trace st1));
          st2 = request (SharedServersRequest (s_machineIdentifier server) token clientIdentifier) st1;
          shared = map (\<lambda>node. mapAccountNode node server (s_accountLabel server))
                     (e_shared env (trace st2))
      in (mergeServerUsers (e_toLowerCase env) local shared, st2))"

record PlexPin =
  p_id :: int
  p_code :: string
  p_clientIdentifier :: string
  p_expiresAt :: string
  p_authToken :: "string option"

definition pinResult :: "pin_response \<Rightarrow> string \<Rightarrow> error + PlexPin" where
  "pinResult response identifier =
     (case response of
        PinFailed message \<Rightarrow> Inl (RequestFailed message)
      | PinMissing \<Rightarrow> Inl TypeError
      | PinData i code expiresAt authToken \<Rightarrow>
          Inr \<lparr>p_id = i, p_code = code, p_clientIdentifier = identifier,
               p_expiresAt = expiresAt, p_authToken = authToken\<rparr>)"

definition createAuthPin :: "env \<Rightarrow> string option \<Rightarrow> mstate \<Rightarrow> (error + PlexPin) \<times> mstate" where
  "createAuthPin env clientIdentifier st =
     (let identifier = (case clientIdentifier of Some c \<Rightarrow> c | None \<Rightarrow> e_uuid env (trace st));
          st1 = request (CreatePinRequest identifier) st
      in (pinResult (e_createPin env (trace st1)) identifier, st1))"

definition checkAuthPin :: "env \<Rightarrow> int \<Rightarrow> string \<Rightarrow> mstate \<Rightarrow> (error + PlexPin) \<times> mstate" where
  "checkAuthPin env i clientIdentifier st =
     (let st1 = request (CheckPinRequest i clientIdentifier) st
      in (pinResult (e_checkPin env (trace st1)) clientIdentifier, st1))"

definition buildAuthUrl :: "env \<Rightarrow> PlexPin \<Rightarrow> string \<Rightarrow> string" where
  "buildAuthUrl env pin productName =
     ''https://app.plex.tv/auth#'' @ e_encodeParams env
       [(''clientID'', p_clientIdentifier pin),
        (''code'', p_code pin),
        (''context[device][product]'', productName),
        (''context[device][environment]'', ''bundled''),
        (''context[device][platform]'', ''Web''),
        (''context[device][device]'', PLEX_DEVICE),
        (''context[device][model]'', ''MCP''),
        (''context[device][version]'', PLEX_VERSION),
        (''context[client][product]'', productName),
        (''context[client][version]'', PLEX_VERSION),
        (''context[client][device]'', PLEX_DEVICE),
        (''context[client][platform]'', ''Web''),
        (''context[client][model]'', ''MCP'')]"


section \<open>The account manager (plexManager.ts)\<close>

subsection \<open>The two cache tiers, on the manager's state\<close>

text \<open>
  \<open>get\<close> reads the clock only when the key has an entry; \<open>set\<close> always reads it.
\<close>

definition serverCache_get :: "env \<Rightarrow> string \<Rightarrow> mstate \<Rightarrow> PlexServer list option \<times> mstate" where
  "serverCache_get env key st =
     (let (v, c) = TTLCache_get (e_now env (reads st)) (serverCache st) key in
      (v, st\<lparr>serverCache := c,
             reads := (if store (serverCache st) key = None then reads st else Suc (reads st))\<rparr>))"

definition serverCache_set :: "env \<Rightarrow> string \<Rightarrow> PlexServer list \<Rightarrow> mstate \<Rightarrow> mstate" where
  "serverCache_set env key v st =
     st\<lparr>serverCache := TTLCache_set (e_now env (reads st)) (serverCache st) key v,
        reads := Suc (reads st)\<rparr>"

definition userCache_get :: "env \<Rightarrow> string \<Rightarrow> mstate \<Rightarrow> PlexUserAccess list option \<times> mstate" where
  "userCache_get env key st =
     (let (v, c) = TTLCache_get (e_now env (reads st)) (userCache st) key in
      (v, st\<lparr>userCache := c,
             reads := (if store (userCache st) key = None then reads st else Suc (reads st))\<rparr>))"

definition userCache_set :: "env \<Rightarrow> string \<Rightarrow> PlexUserAccess list \<Rightarrow> mstate \<Rightarrow> mstate" where
  "userCache_set env key v st =
     st\<lparr>userCache := TTLCache_set (e_now env (reads st)) (userCache st) key v,
        reads := Suc (reads st)\<rparr>"

definition initialState :: "int \<Rightarrow> mstate" where
  "initialState cacheTtlMs =
     \<lparr>serverCache = newTTLCache cacheTtlMs, userCache = newTTLCache cacheTtlMs,
      trace = [], reads = 0\<rparr>"

subsection \<open>validateAccounts\<close>

record AccountValidationResult =
  v_label :: string
  v_valid :: bool
  v_username :: "string option"
  v_email :: "string option"

definition validationResult ::
  "Account \<Rightarrow> (string option \<times> string option) option \<Rightarrow> AccountValidationResult" where
  "validationResult account info =
     (case info of
        Some (username, email) \<Rightarrow>
          \<lparr>v_label = a_label account, v_valid = True, v_username = username, v_email = email\<rparr>
      | None \<Rightarrow>
          \<lparr>v_label = a_label account, v_valid = False, v_username = None, v_email = None\<rparr>)"

fun validateAccounts_loop ::
  "env \<Rightarrow> Account list \<Rightarrow> AccountValidationResult list \<Rightarrow> mstate
     \<Rightarrow> AccountValidationResult list \<times> mstate" where
  "validateAccounts_loop env [] results st = (results, st)"
| "validateAccounts_loop env (account # rest) results st =
     (let (info, st1) = validateToken env (a_token account) (a_clientIdentifier account) st in
      validateAccounts_loop env rest (results @ [validationResult account info]) st1)"

definition validateAccounts ::
  "env \<Rightarrow> Account list \<Rightarrow> mstate \<Rightarrow> AccountValidationResult list \<times> mstate" where
  "validateAccounts env accounts st = validateAccounts_loop env accounts [] st"

subsection \<open>getServers\<close>

fun connectAll ::
  "env \<Rightarrow> Account \<Rightarrow> PlexResource list \<Rightarrow> PlexServer list \<Rightarrow> mstate \<Rightarrow> PlexServer list \<times> mstate" where
  "connectAll env account [] acc st = (acc, st)"
| "connectAll env account (resource # rest) acc st =
     (let (server, st1) = connectToServer env resource (a_token account) (a_label account)
                            (a_clientIdentifier account) st in
      connectAll env account rest
        (case server of Some s \<Rightarrow> acc @ [s] | None \<Rightarrow> acc) st1)"

text \<open>The body of \<open>if (!servers || refresh)\<close>: discover, connect, write to the cache.\<close>

definition fetchServers :: "env \<Rightarrow> Account \<Rightarrow> string \<Rightarrow> mstate \<Rightarrow> PlexServer list \<times> mstate" where
  "fetchServers env account cacheKey st =
     (let (resources, st1) = getResources env (a_token account) (a_clientIdentifier account) st;
          (found, st2) = connectAll env account resources [] st1
      in (found, serverCache_set env cacheKey found st2))"

text \<open>The first half of the loop body: the account's server list, cached or fetched.\<close>

definition loadServers :: "env \<Rightarrow> bool \<Rightarrow> Account \<Rightarrow> mstate \<Rightarrow> PlexServer list \<times> mstate" where
  "loadServers env refresh account st =
     (let cacheKey = ''servers:'' @ a_label account;
          (servers, st1) = serverCache_get env cacheKey st
      in case servers of
           None \<Rightarrow> fetchServers env account cacheKey st1
         | Some cached \<Rightarrow>
             if refresh then fetchServers env account cacheKey st1 else (cached, st1))"

definition serverKey :: "string \<Rightarrow> PlexServer \<Rightarrow> string" where
  "serverKey label server = s_machineIdentifier server @ '':'' @ label"

text \<open>The second half of the loop body: the account's servers not seen yet are appended.\<close>

fun addServers ::
  "string \<Rightarrow> PlexServer list \<Rightarrow> PlexServer list \<times> string set \<Rightarrow> PlexServer list \<times> string set" where
  "addServers label [] (aggregated, seen) = (aggregated, seen)"
| "addServers label (server # rest) (aggregated, seen) =
     (let key = serverKey label server in
      if key \<in> seen
      then addServers label rest (aggregated, seen)
      else addServers label rest (aggregated @ [server], insert key seen))"

fun getServers_loop ::
  "env \<Rightarrow> bool \<Rightarrow> Account list \<Rightarrow> PlexServer list \<times> string set \<Rightarrow> mstate
     \<Rightarrow> PlexServer list \<times> mstate" where
  "getServers_loop env refresh [] acc st = (fst acc, st)"
| "getServers_loop env refresh (account # rest) acc st =
     (let (servers, st1) = loadServers env refresh account st in
      getServers_loop env refresh rest (addServers (a_label account) servers acc) st1)"

definition getServers :: "env \<Rightarrow> Account list \<Rightarrow> bool \<Rightarrow> mstate \<Rightarrow> PlexServer list \<times> mstate" where
  "getServers env accounts refresh st = getServers_loop env refresh accounts ([], {}) st"

subsection \<open>getUsersAcrossServers\<close>

definition findTokenForAccount :: "Account list \<Rightarrow> string \<Rightarrow> error + string" where
  "findTokenForAccount accounts label =
     (case find (\<lambda>acct. a_label acct = label) accounts of
        None \<Rightarrow> Inl (NoAccountFound label)
      | Some account \<Rightarrow> Inr (a_token account))"

definition findClientIdentifier :: "Account list \<Rightarrow> string \<Rightarrow> error + string" where
  "findClientIdentifier accounts label =
     (case find (\<lambda>acct. a_label acct = label) accounts of
        None \<Rightarrow> Inl (NoAccountFound label)
      | Some account \<Rightarrow> Inr (a_clientIdentifier account))"

text \<open>
  The body of \<open>if (!cached || refresh)\<close>; the two lookups are arguments of the call to
  \<open>fetchServerUsers\<close>, evaluated left to right before it, and either may throw.
\<close>

definition fetchUsers ::
  "env \<Rightarrow> Account list \<Rightarrow> PlexServer \<Rightarrow> string \<Rightarrow> mstate
     \<Rightarrow> (error + PlexUserAccess list) \<times> mstate" where
  "fetchUsers env accounts server cacheKey st =
     (case findTokenForAccount accounts (s_accountLabel server) of
        Inl e \<Rightarrow> (Inl e, st)
      | Inr token \<Rightarrow>
         (case findClientIdentifier accounts (s_accountLabel server) of
            Inl e \<Rightarrow> (Inl e, st)
          | Inr clientIdentifier \<Rightarrow>
              let (fetched, st1) = fetchServerUsers env server token clientIdentifier st
              in (Inr fetched, userCache_set env cacheKey fetched st1)))"

text \<open>The first half of the loop body: the server's user list, cached or fetched.\<close>

definition loadUsers ::
  "env \<Rightarrow> Account list \<Rightarrow> bool \<Rightarrow> PlexServer \<Rightarrow> mstate \<Rightarrow> (error + PlexUserAccess list) \<times> mstate" where
  "loadUsers env accounts refresh server st =
     (let cacheKey = ''users:'' @ s_machineIdentifier server @ '':'' @ s_accountLabel server;
          (cached, st1) = userCache_get env cacheKey st
      in case cached of
           None \<Rightarrow> fetchUsers env accounts server cacheKey st1
         | Some us \<Rightarrow>
             if refresh then fetchUsers env accounts server cacheKey st1 else (Inr us, st1))"

fun getUsers_loop ::
  "env \<Rightarrow> Account list \<Rightarrow> bool \<Rightarrow> PlexServer list \<Rightarrow> PlexUserAccess list \<Rightarrow> mstate
     \<Rightarrow> (error + PlexUserAccess list) \<times> mstate" where
  "getUsers_loop env accounts refresh [] users st = (Inr users, st)"
| "getUsers_loop env accounts refresh (server # rest) users st =
     (case loadUsers env accounts refresh server st of
        (Inl e, st1) \<Rightarrow> (Inl e, st1)
      | (Inr us, st1) \<Rightarrow> getUsers_loop env accounts refresh rest (users @ us) st1)"

definition getUsersAcrossServers ::
  "env \<Rightarrow> Account list \<Rightarrow> bool \<Rightarrow> mstate \<Rightarrow> (error + PlexUserAccess list) \<times> mstate" where
  "getUsersAcrossServers env accounts refresh st =
     (let (servers, st1) = getServers env accounts refresh st
      in getUsers_loop env accounts refresh servers [] st1)"

subsection \<open>searchUsers\<close>

record FuseMatch =
  fm_key :: string
  fm_value :: string
  fm_indices :: "(nat \<times> nat) list"

record FuseResult =
  fr_item :: PlexUserAccess
  fr_score :: "real option"
  fr_matches :: "FuseMatch list option"

record SearchMatch =
  m_score :: real
  m_user :: PlexUserAccess
  m_matchDetails :: "FuseMatch list"

record SearchResult =
  matches :: "SearchMatch list"
  totalMatched :: nat
  totalSearched :: nat

definition emptyResult :: SearchResult where
  "emptyResult = \<lparr>matches = [], totalMatched = 0, totalSearched = 0\<rparr>"

definition toSearchMatch :: "FuseResult \<Rightarrow> SearchMatch" where
  "toSearchMatch res =
     \<lparr>m_score = (case fr_score res of Some s \<Rightarrow> s | None \<Rightarrow> 1),
      m_user = fr_item res,
      m_matchDetails = (case fr_matches res of Some ms \<Rightarrow> ms | None \<Rightarrow> [])\<rparr>"

text \<open>
  \<open>fuse users query limit\<close> stands for \<open>new Fuse(users, options).search(query, {limit})\<close>
  with the options the source passes. The limit is a natural number: the tool schema
  admits the integers from 1 to 50, and 25 is the default.
\<close>

definition searchUsers ::
  "(PlexUserAccess list \<Rightarrow> string \<Rightarrow> nat \<Rightarrow> FuseResult list) \<Rightarrow> env \<Rightarrow> Account list
     \<Rightarrow> string \<Rightarrow> nat option \<Rightarrow> bool \<Rightarrow> mstate \<Rightarrow> (error + SearchResult) \<times> mstate" where
  "searchUsers fuse env accounts query maxResults refresh st =
     (let trimmed = e_trim env query in
      if trimmed = [] then (Inr emptyResult, st)
      else
        case getUsersAcrossServers env accounts refresh st of
          (Inl e, st1) \<Rightarrow> (Inl e, st1)
        | (Inr users, st1) \<Rightarrow>
            if length users = 0 then (Inr emptyResult, st1)
            else
              let results = fuse users trimmed (case maxResults of Some n \<Rightarrow> n | None \<Rightarrow> 25)
              in (Inr \<lparr>matches = map toSearchMatch results,
                       totalMatched = length results,
                       totalSearched = length users\<rparr>, st1))"

text \<open>
  Modelled from the spec: the similarity step of the Fuzzy Matcher. The source
  delegates the matcher to the fuse.js library, which is not among the source files.
  The similarity measure of section 4.4 of the specification (weighted approximate
  matching of email, username and title, with its threshold) is the parameter
  \<open>similarity\<close>: it gives the score and the match details of a record, or \<open>None\<close>
  when the record is excluded. The candidates are the records that are not excluded,
  in the order of the input, each with its score and details.
\<close>

definition candidates ::
  "(string \<Rightarrow> PlexUserAccess \<Rightarrow> (real \<times> FuseMatch list) option)
     \<Rightarrow> string \<Rightarrow> PlexUserAccess list \<Rightarrow> FuseResult list" where
  "candidates similarity query users =
     List.map_filter
       (\<lambda>user. case similarity query user of
                  None \<Rightarrow> None
                | Some (score, details) \<Rightarrow>
                    Some \<lparr>fr_item = user, fr_score = Some score, fr_matches = Some details\<rparr>)
       users"

text \<open>
  Modelled from the spec: the Fuzzy Matcher (fuse.js, not among the source files).
  Following section 4.4 of the specification, its output is the list of candidates
  sorted by ascending score (keeping the order of the input among equal scores),
  truncated to the requested limit.
\<close>

definition fuzzySearch ::
  "(string \<Rightarrow> PlexUserAccess \<Rightarrow> (real \<times> FuseMatch list) option)
     \<Rightarrow> PlexUserAccess list \<Rightarrow> string \<Rightarrow> nat \<Rightarrow> FuseResult list" where
  "fuzzySearch similarity users query limit =
     take limit
       (sort_key (\<lambda>res. case fr_score res of Some s \<Rightarrow> s | None \<Rightarrow> 1)
          (candidates similarity query users))"

subsection \<open>The PIN flow and the caches\<close>

record AuthPinResult =
  pin :: PlexPin
  authorizationUrl :: string

definition generateAuthPin :: "env \<Rightarrow> string option \<Rightarrow> mstate \<Rightarrow> (error + AuthPinResult) \<times> mstate" where
  "generateAuthPin env clientIdentifier st =
     (case createAuthPin env clientIdentifier st of
        (Inl e, st1) \<Rightarrow> (Inl e, st1)
      | (Inr p, st1) \<Rightarrow>
          (Inr \<lparr>pin = p, authorizationUrl = buildAuthUrl env p PLEX_PRODUCT\<rparr>, st1))"

definition checkAuthPinStatus :: "env \<Rightarrow> int \<Rightarrow> string \<Rightarrow> mstate \<Rightarrow> (error + PlexPin) \<times> mstate" where
  "checkAuthPinStatus env i clientIdentifier st = checkAuthPin env i clientIdentifier st"

definition clearCaches :: "mstate \<Rightarrow> mstate" where
  "clearCaches st =
     st\<lparr>serverCache := TTLCache_clear (serverCache st) None,
        userCache := TTLCache_clear (userCache st) None\<rparr>"

subsection \<open>The states a manager can be in\<close>

text \<open>
  A manager starts with empty caches and changes state only through its public
  operations (\<open>searchUsers\<close> changes it as \<open>getUsersAcrossServers\<close> does, or not at all).
\<close>

inductive reachable :: "env \<Rightarrow> Account list \<Rightarrow> mstate \<Rightarrow> bool" for env accounts where
  r_init: "reachable env accounts (initialState cacheTtlMs)"
| r_validateAccounts:
    "reachable env accounts st \<Longrightarrow> reachable env accounts (snd (validateAccounts env accounts st))"
| r_getServers:
    "reachable env accounts st \<Longrightarrow> reachable env accounts (snd (getServers env accounts refresh st))"
| r_getUsersAcrossServers:
    "reachable env accounts st
       \<Longrightarrow> reachable env accounts (snd (getUsersAcrossServers env accounts refresh st))"
| r_generateAuthPin:
    "reachable env accounts st
       \<Longrightarrow> reachable env accounts (snd (generateAuthPin env clientIdentifier st))"
| r_checkAuthPinStatus:
    "reachable env accounts st
       \<Longrightarrow> reachable env accounts (snd (checkAuthPinStatus env i clientIdentifier st))"
| r_clearCaches:
    "reachable env accounts st \<Longrightarrow> reachable env accounts (clearCaches st)"


section \<open>Auxiliary notions for the properties of getServers\<close>

text \<open>
  The server-list tier only ever holds, under the key of a label, servers discovered
  under that label.
\<close>

definition cache_labelled :: "mstate \<Rightarrow> bool" where
  "cache_labelled st \<longleftrightarrow>
     (\<forall>label entry. store (serverCache st) (''servers:'' @ label) = Some entry \<longrightarrow>
        (\<forall>s \<in> set (ce_value entry). s_accountLabel s = label))"

text \<open>
  The server lists that one pass of \<open>getServers\<close> loads, account by account, each with
  the label of its account; and the same servers in one list, each with its key.
\<close>

fun loadAll ::
  "env \<Rightarrow> bool \<Rightarrow> Account list \<Rightarrow> mstate \<Rightarrow> (string \<times> PlexServer list) list \<times> mstate" where
  "loadAll env refresh [] st = ([], st)"
| "loadAll env refresh (account # rest) st =
     (let (servers, st1) = loadServers env refresh account st;
          (more, st2) = loadAll env refresh rest st1
      in ((a_label account, servers) # more, st2))"

definition keyedServers :: "(string \<times> PlexServer list) list \<Rightarrow> (string \<times> PlexServer) list" where
  "keyedServers ls = concat (map (\<lambda>(label, servers). map (\<lambda>s. (serverKey label s, s)) servers) ls)"

text \<open>The values of a keyed list whose key is neither seen already nor met before.\<close>

fun firstByKey :: "('k \<times> 'a) list \<Rightarrow> 'k set \<Rightarrow> 'a list" where
  "firstByKey [] seen = []"
| "firstByKey ((k, x) # rest) seen =
     (if k \<in> seen then firstByKey rest seen else x # firstByKey rest (insert k seen))"


section \<open>An auxiliary notion for the keys of numeric ids\<close>

text \<open>
  A property that the runtime's \<open>toLowerCase\<close> has: a run of hyphens and decimal digits
  at the end of a string is left as it is and does not change how the rest of the string
  is lower-cased (these characters are neither cased nor ignored by the rule for the
  final sigma, the only rule of \<open>toLowerCase\<close> that looks at what follows a letter).
\<close>

definition digitsUntouched :: "(string \<Rightarrow> string) \<Rightarrow> bool" where
  "digitsUntouched toLowerCase \<longleftrightarrow>
     (\<forall>s d. set d \<subseteq> set ''-0123456789'' \<longrightarrow> toLowerCase (s @ d) = toLowerCase s @ d)"


section \<open>Example data\<close>

text \<open>
  What the runtime's \<open>toLowerCase\<close> and \<open>trim\<close> do on a string of ASCII characters:
  the letters A-Z become a-z, and tab, line feed, vertical tab, form feed, carriage
  return and space are removed from both ends. The examples, whose strings are ASCII,
  use these two functions for the methods of the runtime.
\<close>

definition asciiLowerChar :: "char \<Rightarrow> char" where
  "asciiLowerChar c =
     (case map_of (zip ''ABCDEFGHIJKLMNOPQRSTUVWXYZ'' ''abcdefghijklmnopqrstuvwxyz'') c of
        Some l \<Rightarrow> l
      | None \<Rightarrow> c)"

definition asciiLowerCase :: "string \<Rightarrow> string" where
  "asciiLowerCase s = map asciiLowerChar s"

definition asciiWhiteSpace :: "char \<Rightarrow> bool" where
  "asciiWhiteSpace c \<longleftrightarrow> c \<in> set [CHR 0x09, CHR 0x0A, CHR 0x0B, CHR 0x0C, CHR 0x0D, CHR 0x20]"

definition asciiTrim :: "string \<Rightarrow> string" where
  "asciiTrim s = rev (dropWhile asciiWhiteSpace (rev (dropWhile asciiWhiteSpace s)))"

definition exampleUser :: "string option \<Rightarrow> string option \<Rightarrow> int option \<Rightarrow> PlexUserAccess" where
  "exampleUser email username i =
     \<lparr>u_id = i, u_uuid = None, u_username = username, u_title = None, u_email = email,
      u_restricted = None, u_home = None, u_guest = None, u_canInvite = None,
      u_serverIdentifier = ''M1'', u_serverName = ''Home'', u_accountLabel = ''primary''\<rparr>"

definition exampleNode :: "int \<Rightarrow> UserNode" where
  "exampleNode i =
     \<lparr>n_id = Some i, n_uuid = None, n_username = None, n_title = None, n_email = None,
      n_restricted = None, n_home = None, n_guest = None, n_canInvite = None\<rparr>"

definition exampleResource :: "string \<Rightarrow> PlexResource" where
  "exampleResource machineIdentifier =
     \<lparr>r_name = ''home'', r_provides = ''server'', r_machineIdentifier = machineIdentifier,
      r_owned = True, r_product = ''Plex Media Server'', r_version = ''1'', r_platform = ''Linux'',
      r_uri = [],
      r_connections = [\<lparr>c_protocol = ''http'', c_address = ''10.0.0.1'', c_port = 32400,
                        c_uri = ''http://10.0.0.1:32400''\<rparr>]\<rparr>"

definition exampleServer :: "string \<Rightarrow> string \<Rightarrow> PlexServer" where
  "exampleServer machineIdentifier label =
     \<lparr>s_name = ''home'', s_friendlyName = ''Home'', s_machineIdentifier = machineIdentifier,
      s_host = ''10.0.0.1'', s_port = 32400, s_scheme = ''http'',
      s_uri = ''http://10.0.0.1:32400'', s_product = ''Plex Media Server'', s_version = ''1'',
      s_platform = ''Linux'', s_owned = True, s_accountLabel = label\<rparr>"

definition exampleAccount :: "string \<Rightarrow> Account" where
  "exampleAccount label = \<lparr>a_label = label, a_token = ''token'', a_clientIdentifier = ''client''\<rparr>"

text \<open>
  A service whose clock stands still, where every account sees the given resources,
  every connection answers, every local listing has the given nodes, validation fails
  for the first request only and the PIN requests fail.
\<close>

definition exampleEnv :: "PlexResource list \<Rightarrow> UserNode list \<Rightarrow> env" where
  "exampleEnv resources nodes =
     \<lparr>e_now = (\<lambda>n. 0),
      e_uuid = (\<lambda>tr. ''uuid''),
      e_validate = (\<lambda>tr. if length tr = 1 then ValidateFailed
                          else ValidateUser (Some ''user'') None (Some ''user@x.com'')),
      e_resources = (\<lambda>tr. resources),
      e_connection = (\<lambda>tr. ConnectionContainer (Some ''Home'')),
      e_accounts = (\<lambda>tr. nodes),
      e_shared = (\<lambda>tr. []),
      e_createPin = (\<lambda>tr. PinFailed ''timeout''),
      e_checkPin = (\<lambda>tr. PinFailed ''timeout''),
      e_encodeParams = (\<lambda>ps. []),
      e_toLowerCase = asciiLowerCase,
      e_trim = asciiTrim\<rparr>"

definition exampleAccounts :: "Account list" where
  "exampleAccounts = [exampleAccount ''a'', exampleAccount ''b'']"

text \<open>Two resource entries for the same machine.\<close>

definition exampleResources :: "PlexResource list" where
  "exampleResources = [exampleResource ''M1'', exampleResource ''M1'']"

definition exampleNodes :: "UserNode list" where
  "exampleNodes = map exampleNode [0, 1, 2, 3, 4, 5, 6, 7, 8, 9]"

text \<open>
  Three accounts with the labels \<open>x:a\<close>, \<open>a\<close> and \<open>b\<close>, told apart by their tokens,
  and a service where the first sees the machine \<open>M1\<close> and the other two see the
  machine \<open>M1:x\<close>.
\<close>

definition collisionAccounts :: "Account list" where
  "collisionAccounts =
     [\<lparr>a_label = ''x:a'', a_token = ''t1'', a_clientIdentifier = ''client''\<rparr>,
      \<lparr>a_label = ''a'', a_token = ''t2'', a_clientIdentifier = ''client''\<rparr>,
      \<lparr>a_label = ''b'', a_token = ''t3'', a_clientIdentifier = ''client''\<rparr>]"

definition collisionEnv :: env where
  "collisionEnv =
     (exampleEnv [] [])
       \<lparr>e_resources :=
          (\<lambda>tr. if tr \<noteq> [] \<and> last tr = ResourcesRequest ''t1'' ''client''
                then [exampleResource ''M1'']
                else [exampleResource ''M1:x''])\<rparr>"


section \<open>Properties of the deduplication\<close>


lemma dedupe_loop_keys:
  "distinct (map fst d) \<Longrightarrow> distinct (map fst (dedupe_loop toLowerCase xs d))"
  by (induction xs arbitrary: d) (auto simp: Let_def)

lemma dedupe_loop_keyed:
  "\<forall>p \<in> set d. fst p = userKey toLowerCase (snd p) \<Longrightarrow> \<forall>p \<in> set (dedupe_loop toLowerCase xs d). fst p = userKey toLowerCase (snd p)"
proof (induction xs arbitrary: d)
  case Nil
  then show ?case by simp
next
  case (Cons x xs)
  have "\<forall>p \<in> set (d @ [(userKey toLowerCase x, x)]). fst p = userKey toLowerCase (snd p)"
    using Cons.prems by simp
  from Cons.IH[OF this] Cons.IH[OF Cons.prems] show ?case
    by (simp add: Let_def)
qed

lemma dedupe_loop_keyset:
  "fst ` set (dedupe_loop toLowerCase xs d) = fst ` set d \<union> userKey toLowerCase ` set xs"
  by (induction xs arbitrary: d) (auto simp: Let_def)

lemma dedupe_loop_first:
  "p \<in> set (dedupe_loop toLowerCase xs d) \<Longrightarrow>
     p \<in> set d \<or> (fst p \<notin> fst ` set d \<and> find (\<lambda>v. userKey toLowerCase v = fst p) xs = Some (snd p))"
proof (induction xs arbitrary: d)
  case Nil
  then show ?case by simp
next
  case (Cons x xs)
  show ?case
  proof (cases "userKey toLowerCase x \<in> fst ` set d")
    case True
    with Cons.prems have "p \<in> set (dedupe_loop toLowerCase xs d)" by (simp add: Let_def)
    from Cons.IH[OF this] have "p \<in> set d \<or> (fst p \<notin> fst ` set d \<and> find (\<lambda>v. userKey toLowerCase v = fst p) xs = Some (snd p))" .
    moreover have "fst p \<notin> fst ` set d \<Longrightarrow> userKey toLowerCase x \<noteq> fst p" using True by metis
    ultimately show ?thesis by auto
  next
    case False
    with Cons.prems have "p \<in> set (dedupe_loop toLowerCase xs (d @ [(userKey toLowerCase x, x)]))" by (simp add: Let_def)
    from Cons.IH[OF this] consider
        (old) "p \<in> set d"
      | (new) "p = (userKey toLowerCase x, x)"
      | (later) "fst p \<notin> fst ` set d" "fst p \<noteq> userKey toLowerCase x"
                "find (\<lambda>v. userKey toLowerCase v = fst p) xs = Some (snd p)"
      by auto
    then show ?thesis
    proof cases
      case old
      then show ?thesis by simp
    next
      case new
      with False show ?thesis by simp
    next
      case later
      then show ?thesis by simp
    qed
  qed
qed

lemma dedupe_loop_subseq:
  "\<exists>ys. map snd (dedupe_loop toLowerCase xs d) = map snd d @ ys \<and> subseq ys xs"
proof (induction xs arbitrary: d)
  case Nil
  then show ?case by simp
next
  case (Cons x xs)
  show ?case
  proof (cases "userKey toLowerCase x \<in> fst ` set d")
    case True
    from Cons.IH[of d] obtain ys where "map snd (dedupe_loop toLowerCase xs d) = map snd d @ ys" "subseq ys xs" by blast
    with True show ?thesis by (auto simp: Let_def)
  next
    case False
    from Cons.IH[of "d @ [(userKey toLowerCase x, x)]"] obtain ys
      where "map snd (dedupe_loop toLowerCase xs (d @ [(userKey toLowerCase x, x)])) = map snd (d @ [(userKey toLowerCase x, x)]) @ ys" "subseq ys xs" by blast
    with False show ?thesis by (auto simp: Let_def intro!: exI[of _ "x # ys"])
  qed
qed

lemma dedupeUsers_distinct: "distinct (map (userKey toLowerCase) (dedupeUsers toLowerCase xs))"
proof -
  have d: "distinct (map fst (dedupe_loop toLowerCase xs []))" by (rule dedupe_loop_keys) simp
  have k: "\<forall>p \<in> set (dedupe_loop toLowerCase xs []). fst p = userKey toLowerCase (snd p)" by (rule dedupe_loop_keyed) simp
  then have "map fst (dedupe_loop toLowerCase xs []) = map (userKey toLowerCase) (map snd (dedupe_loop toLowerCase xs []))"
    by (simp add: list_eq_iff_nth_eq)
  with d show ?thesis by (simp add: dedupeUsers_def)
qed

lemma dedupeUsers_keys: "userKey toLowerCase ` set (dedupeUsers toLowerCase xs) = userKey toLowerCase ` set xs"
proof -
  have k: "\<forall>p \<in> set (dedupe_loop toLowerCase xs []). fst p = userKey toLowerCase (snd p)" by (rule dedupe_loop_keyed) simp
  have "userKey toLowerCase ` set (dedupeUsers toLowerCase xs) = fst ` set (dedupe_loop toLowerCase xs [])"
    using k by (force simp: dedupeUsers_def image_iff)
  then show ?thesis by (simp add: dedupe_loop_keyset)
qed

lemma dedupeUsers_first:
  assumes "u \<in> set (dedupeUsers toLowerCase xs)"
  shows "find (\<lambda>v. userKey toLowerCase v = userKey toLowerCase u) xs = Some u"
proof -
  from assms obtain p where p: "p \<in> set (dedupe_loop toLowerCase xs [])" "snd p = u"
    by (auto simp: dedupeUsers_def)
  have k: "\<forall>p \<in> set (dedupe_loop toLowerCase xs []). fst p = userKey toLowerCase (snd p)" by (rule dedupe_loop_keyed) simp
  with p have "fst p = userKey toLowerCase u" by auto
  with dedupe_loop_first[OF p(1)] p(2) show ?thesis by simp
qed

lemma dedupeUsers_subseq: "subseq (dedupeUsers toLowerCase xs) xs"
  using dedupe_loop_subseq[of toLowerCase xs "[]"] by (auto simp: dedupeUsers_def)

lemma userKey_cases:
  "(u_email u = Some e \<longrightarrow> userKey toLowerCase u = toLowerCase e)
   \<and> (u_email u = None \<and> u_uuid u = Some x \<longrightarrow> userKey toLowerCase u = toLowerCase x)
   \<and> (u_email u = None \<and> u_uuid u = None \<and> u_username u = Some n \<and> n \<noteq> [] \<longrightarrow>
        userKey toLowerCase u = toLowerCase (u_serverIdentifier u @ ''-'' @ n))
   \<and> (u_email u = None \<and> u_uuid u = None \<and> \<not> truthy (u_username u) \<and> u_id u = Some i \<longrightarrow>
        userKey toLowerCase u = toLowerCase (u_serverIdentifier u @ ''-'' @ numberToString i))"
  by (simp add: userKey_def keySource_def truthy_def)

lemma digitChar_inj: "n < 10 \<Longrightarrow> m < 10 \<Longrightarrow> digitChar n = digitChar m \<Longrightarrow> n = m"
proof -
  assume "n < 10" "m < 10" and eq: "digitChar n = digitChar m"
  then have "n \<in> {0,1,2,3,4,5,6,7,8,9}" "m \<in> {0,1,2,3,4,5,6,7,8,9}" by auto
  with eq show ?thesis by (auto simp: digitChar_def)
qed

lemma digitChar_mem: "n < 10 \<Longrightarrow> digitChar n \<in> set ''0123456789''"
  unfolding digitChar_def by (rule nth_mem) simp

lemma digits_set: "set (digits n) \<subseteq> set ''0123456789''"
proof (induction n rule: digits.induct)
  case (1 n)
  show ?case
  proof (cases "n < 10")
    case True
    then show ?thesis using digitChar_mem[of n] by (subst digits.simps) simp
  next
    case False
    have "n mod 10 < 10" by simp
    from digitChar_mem[OF this] 1[OF False] False show ?thesis
      by (subst digits.simps) simp
  qed
qed

lemma digits_nonempty: "digits n \<noteq> []"
  by (subst digits.simps) simp

lemma digits_small: "n < 10 \<Longrightarrow> digits n = [digitChar n]"
  by (subst digits.simps) simp

lemma digits_big: "\<not> n < 10 \<Longrightarrow> digits n = digits (n div 10) @ [digitChar (n mod 10)]"
  by (subst digits.simps) simp

lemma digits_inj: "digits n = digits m \<Longrightarrow> n = m"
proof (induction n arbitrary: m rule: digits.induct)
  case (1 n)
  show ?case
  proof (cases "n < 10")
    case n: True
    show ?thesis
    proof (cases "m < 10")
      case True
      from 1(2) have "digitChar n = digitChar m"
        by (simp only: digits_small[OF n] digits_small[OF True] list.inject)
      with n True show ?thesis by (rule digitChar_inj)
    next
      case False
      from 1(2) have "[digitChar n] = digits (m div 10) @ [digitChar (m mod 10)]"
        by (simp only: digits_small[OF n] digits_big[OF False])
      then have "digits (m div 10) = []" by simp
      with digits_nonempty show ?thesis by blast
    qed
  next
    case n: False
    show ?thesis
    proof (cases "m < 10")
      case True
      from 1(2) have "digits (n div 10) @ [digitChar (n mod 10)] = [digitChar m]"
        by (simp only: digits_small[OF True] digits_big[OF n])
      then have "digits (n div 10) = []" by simp
      with digits_nonempty show ?thesis by blast
    next
      case False
      from 1(2) have "digits (n div 10) @ [digitChar (n mod 10)] = digits (m div 10) @ [digitChar (m mod 10)]"
        by (simp only: digits_big[OF n] digits_big[OF False])
      then have a: "digits (n div 10) = digits (m div 10)" and b: "digitChar (n mod 10) = digitChar (m mod 10)"
        by simp_all
      from 1(1)[OF n a] have "n div 10 = m div 10" .
      moreover have "n mod 10 = m mod 10" by (rule digitChar_inj[OF _ _ b]) simp_all
      ultimately show ?thesis by (metis div_mult_mod_eq)
    qed
  qed
qed

lemma digits_no_minus: "digits n \<noteq> CHR ''-'' # xs"
proof
  assume "digits n = CHR ''-'' # xs"
  then have "CHR ''-'' \<in> set (digits n)" by simp
  with digits_set[of n] show False by auto
qed

lemma numberToString_inj: "numberToString i = numberToString j \<Longrightarrow> i = j"
proof -
  assume eq: "numberToString i = numberToString j"
  show ?thesis
  proof (cases "i < 0")
    case i: True
    show ?thesis
    proof (cases "j < 0")
      case True
      with i eq have "digits (nat (- i)) = digits (nat (- j))" by (simp add: numberToString_def)
      then have "nat (- i) = nat (- j)" by (rule digits_inj)
      with i True show ?thesis by simp
    next
      case False
      with i eq have "digits (nat j) = CHR ''-'' # digits (nat (- i))"
        by (simp only: numberToString_def if_True if_False)
      with digits_no_minus show ?thesis by blast
    qed
  next
    case i: False
    show ?thesis
    proof (cases "j < 0")
      case True
      with i eq have "digits (nat i) = CHR ''-'' # digits (nat (- j))"
        by (simp only: numberToString_def if_True if_False)
      with digits_no_minus show ?thesis by blast
    next
      case False 
      with i eq have "digits (nat i) = digits (nat j)" by (simp only: numberToString_def if_False)
      then have "nat i = nat j" by (rule digits_inj)
      with i False show ?thesis by simp
    qed
  qed
qed

lemma asciiLowerChar_fixed: "\<forall>c \<in> set ''-0123456789''. asciiLowerChar c = c"
  by (simp add: asciiLowerChar_def)

lemma asciiLowerCase_append: "asciiLowerCase (a @ b) = asciiLowerCase a @ asciiLowerCase b"
  by (simp add: asciiLowerCase_def)

lemma asciiLowerCase_digitsUntouched: "digitsUntouched asciiLowerCase"
  unfolding digitsUntouched_def
proof (intro allI impI)
  fix s d :: string
  assume "set d \<subseteq> set ''-0123456789''"
  with asciiLowerChar_fixed have "\<forall>c \<in> set d. asciiLowerChar c = c" by (meson subsetD)
  then have "asciiLowerCase d = d" unfolding asciiLowerCase_def by (simp add: map_idI)
  then show "asciiLowerCase (s @ d) = asciiLowerCase s @ d"
    by (simp only: asciiLowerCase_append)
qed

lemma numberToString_chars: "set (CHR ''-'' # numberToString i) \<subseteq> set ''-0123456789''"
proof -
  have sub: "set ''0123456789'' \<subseteq> set ''-0123456789''" by (rule set_subset_Cons[of "''0123456789''" "CHR ''-''"])
  have d: "set (digits n) \<subseteq> set ''-0123456789''" for n
    by (rule subset_trans[OF digits_set sub])
  have m: "CHR ''-'' \<in> set ''-0123456789''" by (rule list.set_intros(1))
  have c: "set (CHR ''-'' # xs) \<subseteq> S" if "CHR ''-'' \<in> S" "set xs \<subseteq> S" for xs S
    using that by simp
  show ?thesis
  proof (cases "i < 0")
    case True
    then have "numberToString i = CHR ''-'' # digits (nat (- i))" by (simp add: numberToString_def)
    with c[OF m c[OF m d]] show ?thesis by (simp only:)
  next
    case False
    then have "numberToString i = digits (nat i)" by (simp add: numberToString_def)
    with c[OF m d] show ?thesis by (simp only:)
  qed
qed

lemma dedupe_loop_all_seen:
  "\<forall>u \<in> set xs. userKey toLowerCase u \<in> fst ` set d \<Longrightarrow> dedupe_loop toLowerCase xs d = d"
  by (induction xs) (simp_all add: Let_def)

lemma dedupeUsers_same_key:
  assumes "\<forall>u \<in> set xs. userKey toLowerCase u = k"
  shows "dedupeUsers toLowerCase xs = take 1 xs"
proof (cases xs)
  case Nil
  then show ?thesis by (simp add: dedupeUsers_def)
next
  case (Cons x rest)
  with assms have "\<forall>u \<in> set rest. userKey toLowerCase u \<in> fst ` set [(userKey toLowerCase x, x)]" by simp
  then have "dedupe_loop toLowerCase rest [(userKey toLowerCase x, x)] = [(userKey toLowerCase x, x)]"
    by (rule dedupe_loop_all_seen)
  with Cons show ?thesis by (simp add: dedupeUsers_def Let_def)
qed

lemma dedupe_loop_all_new:
  "distinct (map (userKey toLowerCase) xs) \<Longrightarrow> userKey toLowerCase ` set xs \<inter> fst ` set d = {} \<Longrightarrow>
     dedupe_loop toLowerCase xs d = d @ map (\<lambda>u. (userKey toLowerCase u, u)) xs"
proof (induction xs arbitrary: d)
  case Nil
  then show ?case by simp
next
  case (Cons x xs)
  from Cons.prems(2) have new: "userKey toLowerCase x \<notin> fst ` set d" by auto
  have d: "distinct (map (userKey toLowerCase) xs)" using Cons.prems(1) by simp
  have "userKey toLowerCase ` set xs \<inter> fst ` set (d @ [(userKey toLowerCase x, x)]) = {}"
    using Cons.prems by auto
  from Cons.IH[OF d this] new show ?case by (simp add: Let_def)
qed

lemma dedupeUsers_distinct_keys: "distinct (map (userKey toLowerCase) xs) \<Longrightarrow> dedupeUsers toLowerCase xs = xs"
  by (simp add: dedupeUsers_def dedupe_loop_all_new comp_def)

lemma userKey_numeric:
  assumes "digitsUntouched toLowerCase"
    and "u_email b = None" "u_uuid b = None" "\<not> truthy (u_username b)" "u_id b = Some i"
  shows "userKey toLowerCase b = toLowerCase (u_serverIdentifier b) @ CHR ''-'' # numberToString i"
proof -
  from assms(2-5) have "userKey toLowerCase b
      = toLowerCase (u_serverIdentifier b @ (CHR ''-'' # numberToString i))"
    by (simp add: userKey_def keySource_def)
  also from assms(1) numberToString_chars[of i]
  have "\<dots> = toLowerCase (u_serverIdentifier b) @ (CHR ''-'' # numberToString i)"
    unfolding digitsUntouched_def by blast
  finally show ?thesis .
qed

lemma userKey_numeric_inj:
  assumes "digitsUntouched toLowerCase"
    and "u_email b = None" "u_uuid b = None" "\<not> truthy (u_username b)" "u_id b = Some i"
    and "u_email c = None" "u_uuid c = None" "\<not> truthy (u_username c)" "u_id c = Some j"
    and "u_serverIdentifier b = u_serverIdentifier c"
    and "userKey toLowerCase b = userKey toLowerCase c"
  shows "i = j"
proof -
  from userKey_numeric[OF assms(1) assms(2-5)] userKey_numeric[OF assms(1) assms(6-9)] assms(10,11)
  have "numberToString i = numberToString j" by simp
  then show ?thesis by (rule numberToString_inj)
qed

lemma numeric_keys_distinct:
  assumes lc: "digitsUntouched toLowerCase"
    and all: "\<forall>u \<in> set xs. u_email u = None \<and> u_uuid u = None \<and> \<not> truthy (u_username u)
                  \<and> u_id u \<noteq> None \<and> u_serverIdentifier u = sid"
    and d: "distinct (map u_id xs)"
  shows "distinct (map (userKey toLowerCase) xs)"
proof -
  from d have dx: "distinct xs" and inj: "inj_on u_id (set xs)" by (simp_all add: distinct_map)
  have "inj_on (userKey toLowerCase) (set xs)"
  proof (rule inj_onI)
    fix b c assume b: "b \<in> set xs" and c: "c \<in> set xs"
      and k: "userKey toLowerCase b = userKey toLowerCase c"
    from all b obtain i where bi: "u_email b = None" "u_uuid b = None" "\<not> truthy (u_username b)"
      "u_id b = Some i" "u_serverIdentifier b = sid" by auto
    from all c obtain j where cj: "u_email c = None" "u_uuid c = None" "\<not> truthy (u_username c)"
      "u_id c = Some j" "u_serverIdentifier c = sid" by auto
    from bi(5) cj(5) have "u_serverIdentifier b = u_serverIdentifier c" by simp
    from userKey_numeric_inj[OF lc bi(1-4) cj(1-4) this k] bi(4) cj(4) have "u_id b = u_id c" by simp
    with inj b c show "b = c" by (auto dest: inj_onD)
  qed
  with dx show ?thesis by (simp add: distinct_map)
qed

lemma dedupeUsers_pair:
  assumes "userKey toLowerCase u = userKey toLowerCase v"
  shows "dedupeUsers toLowerCase [u, v] = [u]"
  using assms by (simp add: dedupeUsers_def Let_def)


section \<open>Properties of validation and of the PIN flow\<close>

lemma request_simps [simp]:
  "trace (request c st) = trace st @ [c]"
  "serverCache (request c st) = serverCache st"
  "userCache (request c st) = userCache st"
  "reads (request c st) = reads st"
  by (simp_all add: request_def)

lemma validateToken_eq:
  "validateToken env token cid st =
     (tokenInfo (e_validate env (trace st @ [ValidateRequest token cid])),
      request (ValidateRequest token cid) st)"
  by (simp add: validateToken_def Let_def)

lemma validateAccounts_loop_state:
  "snd (validateAccounts_loop env accs results st) =
     st\<lparr>trace := trace st @ map (\<lambda>a. ValidateRequest (a_token a) (a_clientIdentifier a)) accs\<rparr>"
  by (induction accs arbitrary: results st) (simp_all add: validateToken_eq request_def)

lemma validateAccounts_loop_length:
  "length (fst (validateAccounts_loop env accs results st)) = length results + length accs"
  by (induction accs arbitrary: results st) (simp_all add: validateToken_eq)

lemma validateAccounts_loop_old:
  "i < length results \<Longrightarrow> fst (validateAccounts_loop env accs results st) ! i = results ! i"
  by (induction accs arbitrary: results st) (simp_all add: validateToken_eq nth_append)

lemma validateAccounts_loop_nth:
  "i < length accs \<Longrightarrow>
     fst (validateAccounts_loop env accs results st) ! (length results + i) =
       validationResult (accs ! i)
         (tokenInfo (e_validate env
            (trace st @ map (\<lambda>a. ValidateRequest (a_token a) (a_clientIdentifier a)) (take (Suc i) accs))))"
proof (induction accs arbitrary: results st i)
  case Nil
  then show ?case by simp
next
  case (Cons a rest)
  let ?r = "validationResult a (tokenInfo (e_validate env (trace st @ [ValidateRequest (a_token a) (a_clientIdentifier a)])))"
  let ?st1 = "request (ValidateRequest (a_token a) (a_clientIdentifier a)) st"
  have step: "validateAccounts_loop env (a # rest) results st =
                validateAccounts_loop env rest (results @ [?r]) ?st1"
    by (simp add: validateToken_eq)
  show ?case
  proof (cases i)
    case 0
    have "fst (validateAccounts_loop env rest (results @ [?r]) ?st1) ! length results = (results @ [?r]) ! length results"
      by (rule validateAccounts_loop_old) simp
    with 0 step show ?thesis by simp
  next
    case (Suc j)
    with Cons.prems have j: "j < length rest" by simp
    from Cons.IH[OF j, of "results @ [?r]" ?st1] Suc step show ?thesis by simp
  qed
qed


lemma createAuthPin_eq:
  "createAuthPin env cid st =
     (pinResult (e_createPin env (trace st @ [CreatePinRequest (case cid of Some c \<Rightarrow> c | None \<Rightarrow> e_uuid env (trace st))]))
        (case cid of Some c \<Rightarrow> c | None \<Rightarrow> e_uuid env (trace st)),
      request (CreatePinRequest (case cid of Some c \<Rightarrow> c | None \<Rightarrow> e_uuid env (trace st))) st)"
  by (simp add: createAuthPin_def Let_def)

lemma checkAuthPin_eq:
  "checkAuthPin env i cid st =
     (pinResult (e_checkPin env (trace st @ [CheckPinRequest i cid])) cid,
      request (CheckPinRequest i cid) st)"
  by (simp add: checkAuthPin_def Let_def)

lemma generateAuthPin_state:
  "snd (generateAuthPin env cid st) =
     request (CreatePinRequest (case cid of Some c \<Rightarrow> c | None \<Rightarrow> e_uuid env (trace st))) st"
  by (simp add: generateAuthPin_def createAuthPin_eq split: sum.splits)

lemma generateAuthPin_error:
  "pinResult (e_createPin env (trace st @ [CreatePinRequest (case cid of Some c \<Rightarrow> c | None \<Rightarrow> e_uuid env (trace st))]))
        (case cid of Some c \<Rightarrow> c | None \<Rightarrow> e_uuid env (trace st)) = Inl e
   \<Longrightarrow> fst (generateAuthPin env cid st) = Inl e"
  by (simp add: generateAuthPin_def createAuthPin_eq split: sum.splits)

lemma generateAuthPin_isl:
  "isl (fst (generateAuthPin env cid st)) =
     isl (pinResult (e_createPin env (trace st @ [CreatePinRequest (case cid of Some c \<Rightarrow> c | None \<Rightarrow> e_uuid env (trace st))]))
        (case cid of Some c \<Rightarrow> c | None \<Rightarrow> e_uuid env (trace st)))"
  by (simp add: generateAuthPin_def createAuthPin_eq split: sum.splits)

lemma pinResult_isl: "isl (pinResult response identifier) \<longleftrightarrow> (\<forall>i c x t. response \<noteq> PinData i c x t)"
  by (cases response) (simp_all add: pinResult_def)


section \<open>Properties of getServers\<close>

subsection \<open>What the client functions do to the state\<close>

lemma connect_loop_frame:
  "connect_loop env resource token label cid conns st = (r, st') \<Longrightarrow>
     serverCache st' = serverCache st \<and> userCache st' = userCache st \<and> reads st' = reads st"
proof (induction conns arbitrary: st)
  case Nil
  then show ?case by simp
next
  case (Cons c cs)
  then show ?case
    by (cases "e_connection env (trace st @ [ConnectionRequest (c_uri c) token cid])")
       (auto simp: Let_def split: if_splits)
qed

lemma connect_loop_label:
  "connect_loop env resource token label cid conns st = (Some s, st') \<Longrightarrow>
     s_accountLabel s = label \<and> s_machineIdentifier s = r_machineIdentifier resource"
proof (induction conns arbitrary: st)
  case Nil
  then show ?case by simp
next
  case (Cons c cs)
  then show ?case
    by (cases "e_connection env (trace st @ [ConnectionRequest (c_uri c) token cid])")
       (auto simp: Let_def split: if_splits)
qed

lemma connectToServer_frame:
  "connectToServer env resource token label cid st = (r, st') \<Longrightarrow>
     serverCache st' = serverCache st \<and> userCache st' = userCache st \<and> reads st' = reads st"
  unfolding connectToServer_def by (drule connect_loop_frame) simp

lemma connectToServer_label:
  "connectToServer env resource token label cid st = (Some s, st') \<Longrightarrow>
     s_accountLabel s = label \<and> s_machineIdentifier s = r_machineIdentifier resource"
  unfolding connectToServer_def by (rule connect_loop_label)

lemma connectAll_frame:
  "connectAll env account resources acc st = (r, st') \<Longrightarrow>
     serverCache st' = serverCache st \<and> userCache st' = userCache st \<and> reads st' = reads st"
proof (induction resources arbitrary: acc st)
  case Nil
  then show ?case by simp
next
  case (Cons x xs)
  obtain server st1 where c: "connectToServer env x (a_token account) (a_label account)
                            (a_clientIdentifier account) st = (server, st1)" by force
  from Cons.prems c have "connectAll env account xs
        (case server of Some s \<Rightarrow> acc @ [s] | None \<Rightarrow> acc) st1 = (r, st')" by simp
  from Cons.IH[OF this] connectToServer_frame[OF c] show ?case by simp
qed

lemma connectAll_label:
  "connectAll env account resources acc st = (r, st') \<Longrightarrow>
     \<forall>s \<in> set acc. s_accountLabel s = a_label account \<Longrightarrow>
     \<forall>s \<in> set r. s_accountLabel s = a_label account"
proof (induction resources arbitrary: acc st)
  case Nil
  then show ?case by simp
next
  case (Cons x xs)
  obtain server st1 where c: "connectToServer env x (a_token account) (a_label account)
                            (a_clientIdentifier account) st = (server, st1)" by force
  from Cons.prems(1) c have r: "connectAll env account xs
        (case server of Some s \<Rightarrow> acc @ [s] | None \<Rightarrow> acc) st1 = (r, st')" by simp
  have "\<forall>s \<in> set (case server of Some s \<Rightarrow> acc @ [s] | None \<Rightarrow> acc). s_accountLabel s = a_label account"
    using Cons.prems(2) c by (auto split: option.splits dest: connectToServer_label)
  from Cons.IH[OF r this] show ?case .
qed

lemma getResources_frame:
  "getResources env token cid st = (r, st') \<Longrightarrow>
     serverCache st' = serverCache st \<and> userCache st' = userCache st \<and> reads st' = reads st"
  by (auto simp: getResources_def Let_def)

lemma fetchServers_result:
  assumes "fetchServers env account key st = (servers, st')"
  shows "(\<forall>s \<in> set servers. s_accountLabel s = a_label account)
         \<and> userCache st' = userCache st
         \<and> ttlMs (serverCache st') = ttlMs (serverCache st)
         \<and> (\<exists>t. store (serverCache st') = (store (serverCache st))(key \<mapsto> \<lparr>ce_value = servers, ce_expiresAt = t\<rparr>))"
proof -
  obtain resources st1 where g: "getResources env (a_token account) (a_clientIdentifier account) st = (resources, st1)"
    by force
  obtain found st2 where c: "connectAll env account resources [] st1 = (found, st2)" by force
  from assms g c have eq: "servers = found" "st' = serverCache_set env key found st2"
    by (auto simp: fetchServers_def)
  from connectAll_label[OF c] have "\<forall>s \<in> set found. s_accountLabel s = a_label account" by simp
  moreover from getResources_frame[OF g] connectAll_frame[OF c]
  have "serverCache st2 = serverCache st" "userCache st2 = userCache st" by simp_all
  ultimately show ?thesis using eq
    by (auto simp: serverCache_set_def TTLCache_set_def)
qed

lemma serverCache_get_result:
  assumes "serverCache_get env key st = (v, st')"
  shows "userCache st' = userCache st \<and> trace st' = trace st
         \<and> ttlMs (serverCache st') = ttlMs (serverCache st)
         \<and> (\<forall>k. k \<noteq> key \<longrightarrow> store (serverCache st') k = store (serverCache st) k)
         \<and> (store (serverCache st') key = store (serverCache st) key \<or> store (serverCache st') key = None)
         \<and> (\<forall>x. v = Some x \<longrightarrow> (\<exists>entry. store (serverCache st) key = Some entry \<and> ce_value entry = x
                \<and> serverCache st' = serverCache st))"
  using assms
  by (auto simp: serverCache_get_def TTLCache_get_def Let_def split: option.splits if_splits)

lemma loadServers_result:
  assumes "loadServers env refresh account st = (servers, st')"
  shows "userCache st' = userCache st
         \<and> ttlMs (serverCache st') = ttlMs (serverCache st)
         \<and> (\<forall>k. k \<noteq> ''servers:'' @ a_label account \<longrightarrow> store (serverCache st') k = store (serverCache st) k)
         \<and> (\<exists>entry. store (serverCache st') (''servers:'' @ a_label account) = Some entry \<and> ce_value entry = servers)
         \<and> (cache_labelled st \<longrightarrow> (\<forall>s \<in> set servers. s_accountLabel s = a_label account))"
proof -
  let ?key = "''servers:'' @ a_label account"
  obtain v st1 where g: "serverCache_get env ?key st = (v, st1)" by force
  note G = serverCache_get_result[OF g]
  show ?thesis
  proof (cases "v = None \<or> refresh")
    case True
    with assms g have f: "fetchServers env account ?key st1 = (servers, st')"
      by (auto simp: loadServers_def Let_def split: option.splits)
    from fetchServers_result[OF f] G show ?thesis by auto
  next
    case False
    then obtain cached where v: "v = Some cached" and nr: "\<not> refresh" by auto
    with assms g have eq: "servers = cached" "st' = st1" by (auto simp: loadServers_def Let_def)
    from G v obtain entry where e: "store (serverCache st) ?key = Some entry" "ce_value entry = cached"
      "serverCache st1 = serverCache st" by blast
    from e eq G show ?thesis unfolding cache_labelled_def by auto
  qed
qed

lemma loadServers_labelled:
  assumes "loadServers env refresh account st = (servers, st')" and "cache_labelled st"
  shows "cache_labelled st'"
  unfolding cache_labelled_def
proof (intro allI impI)
  fix label entry
  assume e: "store (serverCache st') (''servers:'' @ label) = Some entry"
  note L = loadServers_result[OF assms(1)]
  show "\<forall>s \<in> set (ce_value entry). s_accountLabel s = label"
  proof (cases "label = a_label account")
    case True
    with L e assms(2) show ?thesis by auto
  next
    case False
    then have "''servers:'' @ label \<noteq> ''servers:'' @ a_label account" by simp
    with L e have "store (serverCache st) (''servers:'' @ label) = Some entry" by auto
    with assms(2) show ?thesis unfolding cache_labelled_def by blast
  qed
qed

subsection \<open>First occurrences in a keyed list\<close>

lemma firstByKey_append:
  "firstByKey (xs @ ys) seen = firstByKey xs seen @ firstByKey ys (seen \<union> fst ` set xs)"
  by (induction xs seen rule: firstByKey.induct) (auto simp: insert_absorb)

lemma firstByKey_subseq: "subseq (firstByKey kvs seen) (map snd kvs)"
  by (induction kvs seen rule: firstByKey.induct) auto

lemma firstByKey_first:
  "x \<in> set (firstByKey kvs seen) \<Longrightarrow>
     \<exists>k. k \<notin> seen \<and> find (\<lambda>p. fst p = k) kvs = Some (k, x)"
proof (induction kvs seen rule: firstByKey.induct)
  case (1 seen)
  then show ?case by simp
next
  case (2 k y rest seen)
  show ?case
  proof (cases "k \<in> seen")
    case True
    with 2 obtain k' where "k' \<notin> seen" "find (\<lambda>p. fst p = k') rest = Some (k', x)" by auto
    with True show ?thesis by (intro exI[of _ k']) auto
  next
    case False
    show ?thesis
    proof (cases "x \<in> set (firstByKey rest (insert k seen))")
      case True
      with 2(2)[OF False] obtain k' where "k' \<notin> insert k seen"
        "find (\<lambda>p. fst p = k') rest = Some (k', x)" by auto
      then show ?thesis by (intro exI[of _ k']) auto
    next
      case no: False
      with 2(3) False have "x = y" by simp
      with False show ?thesis by (intro exI[of _ k]) simp
    qed
  qed
qed

lemma firstByKey_keys:
  "\<forall>p \<in> set kvs. g (snd p) = fst p \<Longrightarrow>
     distinct (map g (firstByKey kvs seen)) \<and> g ` set (firstByKey kvs seen) = fst ` set kvs - seen"
proof (induction kvs seen rule: firstByKey.induct)
  case (1 seen)
  then show ?case by simp
next
  case (2 k y rest seen)
  then have gy: "g y = k" and rest: "\<forall>p \<in> set rest. g (snd p) = fst p" by simp_all
  show ?case
  proof (cases "k \<in> seen")
    case True
    with 2(1)[OF True rest] show ?thesis by auto
  next
    case False
    from 2(2)[OF False rest]
    have d: "distinct (map g (firstByKey rest (insert k seen)))"
      and s: "g ` set (firstByKey rest (insert k seen)) = fst ` set rest - insert k seen" by simp_all
    from s have "k \<notin> g ` set (firstByKey rest (insert k seen))" by blast
    with d s gy False show ?thesis by auto
  qed
qed

subsection \<open>One pass of getServers\<close>

lemma addServers_firstByKey:
  "addServers l ss (agg, seen) =
     (agg @ firstByKey (map (\<lambda>s. (serverKey l s, s)) ss) seen, seen \<union> serverKey l ` set ss)"
  by (induction ss arbitrary: agg seen) (auto simp: Let_def insert_absorb)

lemma keyedServers_Cons:
  "keyedServers ((l, ss) # ls) = map (\<lambda>s. (serverKey l s, s)) ss @ keyedServers ls"
  by (simp add: keyedServers_def)

lemma keyedServers_values: "map snd (keyedServers ls) = concat (map snd ls)"
  by (induction ls) (auto simp: keyedServers_def comp_def)

lemma getServers_loop_loadAll:
  "getServers_loop env refresh accs (agg, seen) st =
     (agg @ firstByKey (keyedServers (fst (loadAll env refresh accs st))) seen,
      snd (loadAll env refresh accs st))"
proof (induction accs arbitrary: agg seen st)
  case Nil
  then show ?case by (simp add: keyedServers_def)
next
  case (Cons a rest)
  obtain ss st1 where l: "loadServers env refresh a st = (ss, st1)" by force
  obtain more st2 where m: "loadAll env refresh rest st1 = (more, st2)" by force
  have img: "fst ` (\<lambda>s. (serverKey (a_label a) s, s)) ` set ss = serverKey (a_label a) ` set ss"
    by (simp add: image_image)
  from l m Cons.IH[of "agg @ firstByKey (map (\<lambda>s. (serverKey (a_label a) s, s)) ss) seen"
                     "seen \<union> serverKey (a_label a) ` set ss" st1]
  show ?case
    by (simp add: addServers_firstByKey keyedServers_Cons firstByKey_append img)
qed

lemma getServers_loadAll:
  "getServers env accounts refresh st =
     (firstByKey (keyedServers (fst (loadAll env refresh accounts st))) {},
      snd (loadAll env refresh accounts st))"
  by (simp add: getServers_def getServers_loop_loadAll)

lemma loadAll_result:
  "loadAll env refresh accs st = (ls, st') \<Longrightarrow>
     map fst ls = map a_label accs \<and> userCache st' = userCache st
     \<and> (cache_labelled st \<longrightarrow>
          cache_labelled st' \<and> (\<forall>p \<in> set ls. \<forall>s \<in> set (snd p). s_accountLabel s = fst p))"
proof (induction accs arbitrary: st ls st')
  case Nil
  then show ?case by auto
next
  case (Cons a rest)
  obtain ss st1 where l: "loadServers env refresh a st = (ss, st1)" by force
  obtain more st2 where m: "loadAll env refresh rest st1 = (more, st2)" by force
  from Cons.prems l m have eq: "ls = (a_label a, ss) # more" "st' = st2" by simp_all
  note L = loadServers_result[OF l] and IH = Cons.IH[OF m]
  show ?case
  proof (intro conjI impI)
    show "map fst ls = map a_label (a # rest)" using eq IH by simp
    show "userCache st' = userCache st" using eq IH L by simp
  next
    assume c: "cache_labelled st"
    then have c1: "cache_labelled st1" by (rule loadServers_labelled[OF l])
    with IH eq show "cache_labelled st'" by simp
    from c L have "\<forall>s \<in> set ss. s_accountLabel s = a_label a" by blast
    with c1 IH eq show "\<forall>p \<in> set ls. \<forall>s \<in> set (snd p). s_accountLabel s = fst p" by simp
  qed
qed

lemma keyedServers_own_key:
  assumes "\<forall>p \<in> set ls. \<forall>s \<in> set (snd p). s_accountLabel s = fst p"
  shows "\<forall>p \<in> set (keyedServers ls). serverKey (s_accountLabel (snd p)) (snd p) = fst p"
  using assms by (induction ls) (auto simp: keyedServers_def)

lemma keyedServers_mem:
  "p \<in> set ls \<Longrightarrow> s \<in> set (snd p) \<Longrightarrow> (serverKey (fst p) s, s) \<in> set (keyedServers ls)"
  by (cases p) (force simp: keyedServers_def)


subsection \<open>The user tier leaves the server tier alone\<close>

lemma fetchUsers_serverCache:
  "fetchUsers env accounts server key st = (r, st') \<Longrightarrow> serverCache st' = serverCache st"
  by (auto simp: fetchUsers_def fetchServerUsers_def userCache_set_def Let_def
           split: sum.splits)

lemma userCache_get_serverCache:
  "userCache_get env key st = (r, st') \<Longrightarrow> serverCache st' = serverCache st"
  by (auto simp: userCache_get_def Let_def split: prod.splits)

lemma loadUsers_serverCache:
  assumes "loadUsers env accounts refresh server st = (r, st')"
  shows "serverCache st' = serverCache st"
proof -
  let ?key = "''users:'' @ s_machineIdentifier server @ '':'' @ s_accountLabel server"
  obtain cached st1 where g: "userCache_get env ?key st = (cached, st1)" by force
  have s01: "serverCache st1 = serverCache st" using g by (rule userCache_get_serverCache)
  from assms g have "serverCache st' = serverCache st1"
    by (auto simp: loadUsers_def Let_def split: option.splits if_splits
             dest: fetchUsers_serverCache)
  with s01 show ?thesis by simp
qed

lemma getUsers_loop_serverCache:
  "getUsers_loop env accounts refresh servers users st = (r, st') \<Longrightarrow>
     serverCache st' = serverCache st"
proof (induction servers arbitrary: users st)
  case Nil
  then show ?case by simp
next
  case (Cons server rest)
  obtain loaded st1 where l: "loadUsers env accounts refresh server st = (loaded, st1)" by force
  note s01 = loadUsers_serverCache[OF l]
  show ?case
  proof (cases loaded)
    case (Inl e)
    with Cons.prems l have "st' = st1" by simp
    with s01 show ?thesis by simp
  next
    case (Inr us)
    with Cons.prems l have "getUsers_loop env accounts refresh rest (users @ us) st1 = (r, st')"
      by simp
    from Cons.IH[OF this] s01 show ?thesis by simp
  qed
qed

lemma cache_labelled_cong: "serverCache st' = serverCache st \<Longrightarrow> cache_labelled st' = cache_labelled st"
  by (simp add: cache_labelled_def)

lemma getServers_labelled:
  assumes "cache_labelled st"
  shows "cache_labelled (snd (getServers env accounts refresh st))"
proof -
  obtain ls st' where l: "loadAll env refresh accounts st = (ls, st')" by force
  from loadAll_result[OF l] assms have "cache_labelled st'" by blast
  with l show ?thesis by (simp add: getServers_loadAll)
qed

lemma reachable_labelled: "reachable env accounts st \<Longrightarrow> cache_labelled st"
proof (induction rule: reachable.induct)
  case (r_init cacheTtlMs)
  show ?case by (simp add: cache_labelled_def initialState_def newTTLCache_def)
next
  case (r_validateAccounts st)
  have "serverCache (snd (validateAccounts env accounts st)) = serverCache st"
    by (simp add: validateAccounts_def validateAccounts_loop_state)
  from cache_labelled_cong[OF this] r_validateAccounts.IH show ?case by blast
next
  case (r_getServers st refresh)
  from getServers_labelled[OF r_getServers.IH] show ?case .
next
  case (r_getUsersAcrossServers st refresh)
  obtain servers st1 where g: "getServers env accounts refresh st = (servers, st1)" by force
  obtain r st2 where u: "getUsers_loop env accounts refresh servers [] st1 = (r, st2)" by force
  from getServers_labelled[OF r_getUsersAcrossServers.IH, of env accounts refresh] g
  have "cache_labelled st1" by simp
  with cache_labelled_cong[OF getUsers_loop_serverCache[OF u]] have "cache_labelled st2"
    by blast
  with g u show ?case by (simp add: getUsersAcrossServers_def)
next
  case (r_generateAuthPin st clientIdentifier)
  have "serverCache (snd (generateAuthPin env clientIdentifier st)) = serverCache st"
    by (simp add: generateAuthPin_state)
  from cache_labelled_cong[OF this] r_generateAuthPin.IH show ?case by blast
next
  case (r_checkAuthPinStatus st i clientIdentifier)
  have "serverCache (snd (checkAuthPinStatus env i clientIdentifier st)) = serverCache st"
    by (simp add: checkAuthPinStatus_def checkAuthPin_eq)
  from cache_labelled_cong[OF this] r_checkAuthPinStatus.IH show ?case by blast
next
  case (r_clearCaches st)
  show ?case by (simp add: clearCaches_def TTLCache_clear_def cache_labelled_def)
qed

subsection \<open>The servers of the result\<close>

lemma firstByKey_set: "set (firstByKey kvs seen) \<subseteq> snd ` set kvs"
  by (induction kvs seen rule: firstByKey.induct) auto

lemma getServers_labels:
  assumes "cache_labelled st" and "s \<in> set (fst (getServers env accounts refresh st))"
  shows "s_accountLabel s \<in> a_label ` set accounts"
proof -
  obtain ls st' where l: "loadAll env refresh accounts st = (ls, st')" by force
  note L = loadAll_result[OF l]
  from assms(2) l have "s \<in> set (firstByKey (keyedServers ls) {})" by (simp add: getServers_loadAll)
  then have "s \<in> set (map snd (keyedServers ls))"
    using firstByKey_set[of "keyedServers ls" "{}"] by auto
  then have "s \<in> set (concat (map snd ls))" by (simp only: keyedServers_values)
  then obtain p where p: "p \<in> set ls" "s \<in> set (snd p)" by auto
  with L assms(1) have "s_accountLabel s = fst p" by blast
  moreover from p have "fst p \<in> set (map fst ls)" by simp
  ultimately show ?thesis using L by simp
qed

lemma find_label:
  "label \<in> a_label ` set accounts \<Longrightarrow>
     \<exists>account. find (\<lambda>acct. a_label acct = label) accounts = Some account"
  by (cases "find (\<lambda>acct. a_label acct = label) accounts") (auto simp: find_None_iff)

lemma fetchUsers_ok:
  assumes "s_accountLabel server \<in> a_label ` set accounts"
  shows "\<exists>users. fst (fetchUsers env accounts server key st) = Inr users"
proof -
  from find_label[OF assms] obtain account
    where "find (\<lambda>acct. a_label acct = s_accountLabel server) accounts = Some account" by blast
  then show ?thesis
    by (simp add: fetchUsers_def findTokenForAccount_def findClientIdentifier_def
          split: prod.splits)
qed

lemma loadUsers_ok:
  assumes "s_accountLabel server \<in> a_label ` set accounts"
  shows "\<exists>users. fst (loadUsers env accounts refresh server st) = Inr users"
proof -
  let ?key = "''users:'' @ s_machineIdentifier server @ '':'' @ s_accountLabel server"
  obtain cached st1 where g: "userCache_get env ?key st = (cached, st1)" by force
  from fetchUsers_ok[OF assms, of env ?key st1] obtain us
    where "fst (fetchUsers env accounts server ?key st1) = Inr us" by blast
  with g show ?thesis by (cases cached) (simp_all add: loadUsers_def Let_def)
qed

lemma getUsers_loop_ok:
  "\<forall>s \<in> set servers. s_accountLabel s \<in> a_label ` set accounts \<Longrightarrow>
     \<exists>result. fst (getUsers_loop env accounts refresh servers users st) = Inr result"
proof (induction servers arbitrary: users st)
  case Nil
  then show ?case by simp
next
  case (Cons server rest)
  from Cons.prems have lab: "s_accountLabel server \<in> a_label ` set accounts" by simp
  from loadUsers_ok[OF lab, of env refresh st] obtain us st1
    where l: "loadUsers env accounts refresh server st = (Inr us, st1)"
    by (metis prod.collapse)
  from Cons.prems have "\<forall>s \<in> set rest. s_accountLabel s \<in> a_label ` set accounts" by simp
  from Cons.IH[OF this, of "users @ us" st1] l show ?case by simp
qed


section \<open>A second pass over fresh cache entries\<close>

lemma loadAll_other_keys:
  "loadAll env refresh accs st = (ls, st') \<Longrightarrow>
     k \<notin> (\<lambda>a. ''servers:'' @ a_label a) ` set accs \<Longrightarrow>
     store (serverCache st') k = store (serverCache st) k"
proof (induction accs arbitrary: st ls st')
  case Nil
  then show ?case by simp
next
  case (Cons a rest)
  obtain ss st1 where l: "loadServers env refresh a st = (ss, st1)" by force
  obtain more st2 where m: "loadAll env refresh rest st1 = (more, st2)" by force
  from Cons.prems(1) l m have eq: "st' = st2" by simp
  from Cons.prems(2) have k1: "k \<noteq> ''servers:'' @ a_label a"
    and k2: "k \<notin> (\<lambda>a. ''servers:'' @ a_label a) ` set rest" by auto
  from loadServers_result[OF l] k1 have "store (serverCache st1) k = store (serverCache st) k"
    by blast
  with Cons.IH[OF m k2] eq show ?case by simp
qed

lemma getServers_loop_other_keys:
  assumes "getServers_loop env refresh accs acc st = (r, st')"
    and "k \<notin> (\<lambda>a. ''servers:'' @ a_label a) ` set accs"
  shows "store (serverCache st') k = store (serverCache st) k"
proof -
  obtain ls st2 where l: "loadAll env refresh accs st = (ls, st2)" by force
  from assms(1) l have "st' = st2"
    by (cases acc) (simp add: getServers_loop_loadAll)
  with loadAll_other_keys[OF l assms(2)] show ?thesis by simp
qed

lemma loadServers_hit:
  assumes "store (serverCache st) (''servers:'' @ a_label a) = Some entry"
    and "e_now env (reads st) \<le> ce_expiresAt entry"
  shows "loadServers env False a st = (ce_value entry, st\<lparr>reads := Suc (reads st)\<rparr>)"
  using assms
  by (simp add: loadServers_def serverCache_get_def TTLCache_get_def Let_def)

lemma getServers_loop_again:
  assumes "getServers_loop env refresh accs acc st = (r, st')"
    and "distinct (map a_label accs)"
    and "serverCache st2 = serverCache st'"
    and "\<forall>i < length accs. \<forall>entry.
           store (serverCache st') (''servers:'' @ a_label (accs ! i)) = Some entry \<longrightarrow>
           e_now env (reads st2 + i) \<le> ce_expiresAt entry"
  shows "getServers_loop env False accs acc st2 = (r, st2\<lparr>reads := reads st2 + length accs\<rparr>)
         \<and> (\<forall>a \<in> set accs. \<exists>entry. store (serverCache st') (''servers:'' @ a_label a) = Some entry)"
  using assms
proof (induction accs arbitrary: acc st st2)
  case Nil
  then show ?case by simp
next
  case (Cons a rest)
  let ?key = "''servers:'' @ a_label a"
  obtain ss st1 where l: "loadServers env refresh a st = (ss, st1)" by force
  with Cons.prems(1) have rest: "getServers_loop env refresh rest (addServers (a_label a) ss acc) st1 = (r, st')"
    by simp
  from loadServers_result[OF l] obtain entry
    where e1: "store (serverCache st1) ?key = Some entry" and v: "ce_value entry = ss" by blast
  from Cons.prems(2) have "?key \<notin> (\<lambda>a. ''servers:'' @ a_label a) ` set rest" by auto
  from getServers_loop_other_keys[OF rest this] e1
  have e': "store (serverCache st') ?key = Some entry" by simp
  with Cons.prems(3) have e2: "store (serverCache st2) ?key = Some entry" by simp
  from Cons.prems(4) e' have "e_now env (reads st2 + 0) \<le> ce_expiresAt entry" by fastforce
  then have fresh: "e_now env (reads st2) \<le> ce_expiresAt entry" by simp
  let ?st2' = "st2\<lparr>reads := Suc (reads st2)\<rparr>"
  from loadServers_hit[OF e2 fresh] v
  have hit: "loadServers env False a st2 = (ss, ?st2')" by simp
  have d: "distinct (map a_label rest)" using Cons.prems(2) by simp
  have c: "serverCache ?st2' = serverCache st'" using Cons.prems(3) by simp
  have f: "\<forall>i < length rest. \<forall>entry.
           store (serverCache st') (''servers:'' @ a_label (rest ! i)) = Some entry \<longrightarrow>
           e_now env (reads ?st2' + i) \<le> ce_expiresAt entry"
  proof (intro allI impI)
    fix i entry
    assume i: "i < length rest"
      and s: "store (serverCache st') (''servers:'' @ a_label (rest ! i)) = Some entry"
    from i have "Suc i < length (a # rest)" by simp
    moreover from s have "store (serverCache st') (''servers:'' @ a_label ((a # rest) ! Suc i)) = Some entry"
      by simp
    ultimately have "e_now env (reads st2 + Suc i) \<le> ce_expiresAt entry"
      using Cons.prems(4) by blast
    then show "e_now env (reads ?st2' + i) \<le> ce_expiresAt entry" by simp
  qed
  from Cons.IH[OF rest d c f]
  have ih1: "getServers_loop env False rest (addServers (a_label a) ss acc) ?st2' =
              (r, ?st2'\<lparr>reads := reads ?st2' + length rest\<rparr>)"
    and ih2: "\<forall>b \<in> set rest. \<exists>entry. store (serverCache st') (''servers:'' @ a_label b) = Some entry"
    by simp_all
  from hit ih1 have "getServers_loop env False (a # rest) acc st2 =
                       (r, st2\<lparr>reads := reads st2 + length (a # rest)\<rparr>)" by simp
  moreover from e' ih2 have "\<forall>b \<in> set (a # rest). \<exists>entry. store (serverCache st') (''servers:'' @ a_label b) = Some entry"
    by simp
  ultimately show ?case by blast
qed

lemma loadAll_entries:
  "loadAll env refresh accs st = (ls, st') \<Longrightarrow>
     (\<exists>entry. store (serverCache st) k = Some entry) \<or> k \<in> (\<lambda>a. ''servers:'' @ a_label a) ` set accs \<Longrightarrow>
     \<exists>entry. store (serverCache st') k = Some entry"
proof (induction accs arbitrary: st ls st')
  case Nil
  then show ?case by simp
next
  case (Cons a rest)
  obtain ss st1 where l: "loadServers env refresh a st = (ss, st1)" by force
  obtain more st2 where m: "loadAll env refresh rest st1 = (more, st2)" by force
  from Cons.prems(1) l m have eq: "st' = st2" by simp
  note L = loadServers_result[OF l]
  have "(\<exists>entry. store (serverCache st1) k = Some entry)
          \<or> k \<in> (\<lambda>a. ''servers:'' @ a_label a) ` set rest"
  proof (cases "k = ''servers:'' @ a_label a")
    case True
    with L show ?thesis by blast
  next
    case False
    with L have "store (serverCache st1) k = store (serverCache st) k" by blast
    with Cons.prems(2) False show ?thesis by auto
  qed
  from Cons.IH[OF m this] eq show ?case by simp
qed

lemma getServers_entries:
  assumes "getServers env accounts refresh st = (servers, st1)" and "a \<in> set accounts"
  shows "\<exists>entry. store (serverCache st1) (''servers:'' @ a_label a) = Some entry"
proof -
  obtain ls st2 where l: "loadAll env refresh accounts st = (ls, st2)" by force
  with assms(1) have "st1 = st2" by (simp add: getServers_loadAll)
  moreover from assms(2) have "''servers:'' @ a_label a \<in> (\<lambda>a. ''servers:'' @ a_label a) ` set accounts"
    by blast
  ultimately show ?thesis using loadAll_entries[OF l] by blast
qed

lemma getServers_loop_hits:
  "\<forall>i < length accs. \<exists>entry.
      store (serverCache st2) (''servers:'' @ a_label (accs ! i)) = Some entry
      \<and> e_now env (reads st2 + i) \<le> ce_expiresAt entry \<Longrightarrow>
   snd (getServers_loop env False accs acc st2) = st2\<lparr>reads := reads st2 + length accs\<rparr>"
proof (induction accs arbitrary: acc st2)
  case Nil
  then show ?case by simp
next
  case (Cons a rest)
  from Cons.prems have "\<exists>entry. store (serverCache st2) (''servers:'' @ a_label ((a # rest) ! 0)) = Some entry
      \<and> e_now env (reads st2 + 0) \<le> ce_expiresAt entry" by blast
  then obtain entry where e: "store (serverCache st2) (''servers:'' @ a_label a) = Some entry"
    and f: "e_now env (reads st2) \<le> ce_expiresAt entry" by auto
  let ?st2' = "st2\<lparr>reads := Suc (reads st2)\<rparr>"
  note hit = loadServers_hit[OF e f]
  have "\<forall>i < length rest. \<exists>entry.
      store (serverCache ?st2') (''servers:'' @ a_label (rest ! i)) = Some entry
      \<and> e_now env (reads ?st2' + i) \<le> ce_expiresAt entry"
  proof (intro allI impI)
    fix i assume "i < length rest"
    then have "Suc i < length (a # rest)" by simp
    with Cons.prems have "\<exists>entry.
      store (serverCache st2) (''servers:'' @ a_label ((a # rest) ! Suc i)) = Some entry
      \<and> e_now env (reads st2 + Suc i) \<le> ce_expiresAt entry" by blast
    then show "\<exists>entry.
      store (serverCache ?st2') (''servers:'' @ a_label (rest ! i)) = Some entry
      \<and> e_now env (reads ?st2' + i) \<le> ce_expiresAt entry" by simp
  qed
  from Cons.IH[OF this, of "addServers (a_label a) (ce_value entry) acc"] hit
  show ?case by simp
qed

section \<open>Properties of the search\<close>

lemma candidates_mem:
  "res \<in> set (candidates similarity query users) \<Longrightarrow>
     \<exists>s ms. fr_item res \<in> set users \<and> similarity query (fr_item res) = Some (s, ms)
            \<and> fr_score res = Some s \<and> fr_matches res = Some ms"
  by (induction users) (auto simp: candidates_def split: option.splits)

lemma candidates_all:
  "\<forall>u \<in> set users. similarity query u \<noteq> None \<Longrightarrow>
     length (candidates similarity query users) = length users"
  by (induction users) (auto simp: candidates_def split: option.splits)

lemma fuzzySearch_mem:
  assumes "res \<in> set (fuzzySearch similarity users query limit)"
  shows "\<exists>s ms. fr_item res \<in> set users \<and> similarity query (fr_item res) = Some (s, ms)
            \<and> fr_score res = Some s \<and> fr_matches res = Some ms"
proof -
  from assms have "res \<in> set (sort_key (\<lambda>res. case fr_score res of Some s \<Rightarrow> s | None \<Rightarrow> 1)
                   (candidates similarity query users))"
    unfolding fuzzySearch_def by (rule in_set_takeD)
  then have "res \<in> set (candidates similarity query users)" by simp
  then show ?thesis by (rule candidates_mem)
qed

lemma fuzzySearch_sorted:
  "sorted (map (\<lambda>res. case fr_score res of Some s \<Rightarrow> s | None \<Rightarrow> 1)
             (fuzzySearch similarity users query limit))"
  unfolding fuzzySearch_def
  by (simp add: take_map[symmetric])

lemma fuzzySearch_length: "length (fuzzySearch similarity users query limit) \<le> limit"
  by (simp add: fuzzySearch_def)

lemma fuzzySearch_length_all:
  "\<forall>u \<in> set users. similarity query u \<noteq> None \<Longrightarrow>
     length (fuzzySearch similarity users query limit) = min limit (length users)"
  by (simp add: fuzzySearch_def candidates_all min.commute)

lemma m_score_toSearchMatch:
  "map m_score (map toSearchMatch rs) = map (\<lambda>res. case fr_score res of Some s \<Rightarrow> s | None \<Rightarrow> 1) rs"
  by (simp add: toSearchMatch_def comp_def)

lemma searchUsers_state:
  "snd (searchUsers fuse env accounts query maxResults refresh st) = st
   \<or> snd (searchUsers fuse env accounts query maxResults refresh st)
       = snd (getUsersAcrossServers env accounts refresh st)"
  by (simp add: searchUsers_def Let_def split: prod.splits sum.splits)

section \<open>The example data, evaluated\<close>

lemma distinct_map_comp: "distinct (map (f \<circ> g) xs) \<Longrightarrow> distinct (map g xs)"
  by (induction xs) auto

lemma serverKey_same_machine:
  "s_machineIdentifier a = s_machineIdentifier b \<Longrightarrow> serverKey l1 a = serverKey l2 b \<longleftrightarrow> l1 = l2"
  by (simp add: serverKey_def)

lemmas example_defs =
  getServers_def loadServers_def serverCache_get_def TTLCache_get_def fetchServers_def
  getResources_def connectToServer_def serverCache_set_def TTLCache_set_def
  exampleEnv_def exampleResource_def exampleAccount_def exampleServer_def exampleNode_def
  exampleAccounts_def exampleResources_def exampleNodes_def
  initialState_def newTTLCache_def serverKey_def truthy_def Let_def request_def
  getUsersAcrossServers_def loadUsers_def userCache_get_def userCache_set_def fetchUsers_def
  findTokenForAccount_def findClientIdentifier_def fetchServerUsers_def mapAccountNode_def
  mergeServerUsers_def dedupeUsers_def userKey_def keySource_def asciiLowerCase_def
  asciiLowerChar_def numberToString_def digits.simps digitChar_def

lemma example_getServers:
  "getServers (exampleEnv exampleResources nodes) exampleAccounts refresh (initialState 1000)
   = ([exampleServer ''M1'' ''a'', exampleServer ''M1'' ''b''],
      \<lparr>serverCache =
         \<lparr>store = [''servers:a'' \<mapsto> \<lparr>ce_value = [exampleServer ''M1'' ''a'', exampleServer ''M1'' ''a''],
                                      ce_expiresAt = 1000\<rparr>,
                   ''servers:b'' \<mapsto> \<lparr>ce_value = [exampleServer ''M1'' ''b'', exampleServer ''M1'' ''b''],
                                      ce_expiresAt = 1000\<rparr>],
          ttlMs = 1000\<rparr>,
       userCache = newTTLCache 1000,
       trace = [ResourcesRequest ''token'' ''client'', ConnectCalled ''M1'' ''a'',
                ConnectionRequest ''http://10.0.0.1:32400'' ''token'' ''client'',
                ConnectCalled ''M1'' ''a'',
                ConnectionRequest ''http://10.0.0.1:32400'' ''token'' ''client'',
                ResourcesRequest ''token'' ''client'', ConnectCalled ''M1'' ''b'',
                ConnectionRequest ''http://10.0.0.1:32400'' ''token'' ''client'',
                ConnectCalled ''M1'' ''b'',
                ConnectionRequest ''http://10.0.0.1:32400'' ''token'' ''client''],
       reads = 2\<rparr>)"
  by (simp add: example_defs)

lemma example_loadAll:
  "fst (loadAll (exampleEnv exampleResources nodes) refresh exampleAccounts (initialState 1000))
   = [(''a'', [exampleServer ''M1'' ''a'', exampleServer ''M1'' ''a'']),
      (''b'', [exampleServer ''M1'' ''b'', exampleServer ''M1'' ''b''])]"
  by (simp add: example_defs)

lemma example_no_users:
  "fst (getUsersAcrossServers (exampleEnv exampleResources []) exampleAccounts False (initialState 1000))
     = Inr []"
  by (simp add: example_defs)

lemma example_users:
  "fst (getUsersAcrossServers (exampleEnv [exampleResource ''M1''] exampleNodes)
          [exampleAccount ''a''] False (initialState 1000))
     = Inr (map (\<lambda>n. mapAccountNode n (exampleServer ''M1'' ''a'') ''a'') exampleNodes)"
  by (simp add: example_defs)

lemma example_two_users:
  "fst (getUsersAcrossServers (exampleEnv exampleResources [exampleNode 1]) exampleAccounts False
          (initialState 1000))
     = Inr [mapAccountNode (exampleNode 1) (exampleServer ''M1'' ''a'') ''a'',
            mapAccountNode (exampleNode 1) (exampleServer ''M1'' ''b'') ''b'']"
  by (simp add: example_defs)

lemma example_trim:
  "e_trim (exampleEnv resources nodes) [CHR 0x20, CHR 0x09, CHR 0x20] = []
   \<and> e_trim (exampleEnv resources nodes) '' bob '' = ''bob''"
  by (simp add: exampleEnv_def asciiTrim_def asciiWhiteSpace_def)


section \<open>The claims on the cache and the deduplication\<close>


text \<open>
  Claim C3. Reading a key whose entry has expired (the clock is past the stored expiry
  time) returns nothing and deletes that entry in the same call; a value that \<open>get\<close>
  does return comes from an entry whose expiry time has not passed. Nothing else
  removes expired entries: \<open>get\<close> leaves every other key as it is (expired or not),
  leaves the whole cache as it is when the entry read is still fresh, and \<open>set\<close>
  touches no key but its own.
\<close>

theorem TTLCache_get_expired:
  "(\<forall>entry. store c key = Some entry \<and> now > ce_expiresAt entry \<longrightarrow>
      fst (TTLCache_get now c key) = None \<and> store (snd (TTLCache_get now c key)) key = None)
   \<and> (\<forall>v. fst (TTLCache_get now c key) = Some v \<longrightarrow>
        (\<exists>entry. store c key = Some entry \<and> ce_value entry = v \<and> now \<le> ce_expiresAt entry))
   \<and> (\<forall>k. k \<noteq> key \<longrightarrow> store (snd (TTLCache_get now c key)) k = store c k)
   \<and> (\<forall>entry. store c key = Some entry \<and> now \<le> ce_expiresAt entry \<longrightarrow>
        snd (TTLCache_get now c key) = c)
   \<and> (\<forall>k. k \<noteq> key \<longrightarrow> store (TTLCache_set now c key v') k = store c k)"
  by (auto simp: TTLCache_get_def TTLCache_set_def split: option.splits if_splits)

text \<open>
  At a concrete cache: at time 101 the entry of \<open>k\<close> (expiry 100) is absent and deleted,
  while the long expired entry of \<open>j\<close> stays; at time 100 the entry of \<open>k\<close> is returned.
\<close>

theorem TTLCache_get_expired_witness:
  "fst (TTLCache_get 101
          \<lparr>store = [''k'' \<mapsto> \<lparr>ce_value = (1::nat), ce_expiresAt = 100\<rparr>,
                    ''j'' \<mapsto> \<lparr>ce_value = 2, ce_expiresAt = 50\<rparr>], ttlMs = 1000\<rparr> ''k'') = None
   \<and> store (snd (TTLCache_get 101
          \<lparr>store = [''k'' \<mapsto> \<lparr>ce_value = (1::nat), ce_expiresAt = 100\<rparr>,
                    ''j'' \<mapsto> \<lparr>ce_value = 2, ce_expiresAt = 50\<rparr>], ttlMs = 1000\<rparr> ''k'')) ''k'' = None
   \<and> store (snd (TTLCache_get 101
          \<lparr>store = [''k'' \<mapsto> \<lparr>ce_value = (1::nat), ce_expiresAt = 100\<rparr>,
                    ''j'' \<mapsto> \<lparr>ce_value = 2, ce_expiresAt = 50\<rparr>], ttlMs = 1000\<rparr> ''k'')) ''j''
       = Some \<lparr>ce_value = 2, ce_expiresAt = 50\<rparr>
   \<and> TTLCache_get 100
          \<lparr>store = [''k'' \<mapsto> \<lparr>ce_value = (1::nat), ce_expiresAt = 100\<rparr>,
                    ''j'' \<mapsto> \<lparr>ce_value = 2, ce_expiresAt = 50\<rparr>], ttlMs = 1000\<rparr> ''k''
       = (Some 1, \<lparr>store = [''k'' \<mapsto> \<lparr>ce_value = (1::nat), ce_expiresAt = 100\<rparr>,
                    ''j'' \<mapsto> \<lparr>ce_value = 2, ce_expiresAt = 50\<rparr>], ttlMs = 1000\<rparr>)"
  using TTLCache_get_expired[where now = 101 and key = "''k''" and v' = 0 and
      c = "\<lparr>store = [''k'' \<mapsto> \<lparr>ce_value = (1::nat), ce_expiresAt = 100\<rparr>,
                    ''j'' \<mapsto> \<lparr>ce_value = 2, ce_expiresAt = 50\<rparr>], ttlMs = 1000\<rparr>"]
  by (simp add: TTLCache_get_def)

text \<open>
  Claim C1. The merge of the two listings of one server keeps exactly one record per
  identity key: the keys of the result are pairwise different and are the keys of the
  input; every record kept is the first record of the input (local listing first, then
  shared listing) with its key, unmodified, and the result is a subsequence of the
  input. The key is the lower-cased email if there is one, else the lower-cased uuid,
  else the lower-cased server identifier, hyphen, username, else the lower-cased
  server identifier, hyphen, numeric id; lower-casing is the runtime's \<open>toLowerCase\<close>,
  whatever it does. In particular, of a record of the local listing and a record of the
  shared listing whose emails are the same once lower-cased, the first alone is the
  result.
\<close>

theorem mergeServerUsers_first_seen:
  "distinct (map (userKey toLowerCase) (mergeServerUsers toLowerCase local shared))
   \<and> userKey toLowerCase ` set (mergeServerUsers toLowerCase local shared)
       = userKey toLowerCase ` set (local @ shared)
   \<and> (\<forall>u \<in> set (mergeServerUsers toLowerCase local shared).
         find (\<lambda>v. userKey toLowerCase v = userKey toLowerCase u) (local @ shared) = Some u)
   \<and> subseq (mergeServerUsers toLowerCase local shared) (local @ shared)
   \<and> (u_email r = Some e \<longrightarrow> userKey toLowerCase r = toLowerCase e)
   \<and> (u_email r = None \<and> u_uuid r = Some x \<longrightarrow> userKey toLowerCase r = toLowerCase x)
   \<and> (u_email r = None \<and> u_uuid r = None \<and> u_username r = Some n \<and> n \<noteq> [] \<longrightarrow>
        userKey toLowerCase r = toLowerCase (u_serverIdentifier r @ ''-'' @ n))
   \<and> (u_email r = None \<and> u_uuid r = None \<and> \<not> truthy (u_username r) \<and> u_id r = Some i \<longrightarrow>
        userKey toLowerCase r = toLowerCase (u_serverIdentifier r @ ''-'' @ numberToString i))
   \<and> (u_email p = Some ep \<and> u_email q = Some eq \<and> toLowerCase ep = toLowerCase eq \<longrightarrow>
        mergeServerUsers toLowerCase [p] [q] = [p])"
proof -
  have pair: "mergeServerUsers toLowerCase [p] [q] = [p]"
    if "u_email p = Some ep \<and> u_email q = Some eq \<and> toLowerCase ep = toLowerCase eq"
  proof -
    from that have "userKey toLowerCase p = userKey toLowerCase q"
      by (simp add: userKey_def keySource_def)
    then show ?thesis unfolding mergeServerUsers_def by (simp add: dedupeUsers_pair)
  qed
  show ?thesis
    unfolding mergeServerUsers_def
    using dedupeUsers_distinct[of toLowerCase "local @ shared"]
      dedupeUsers_keys[of toLowerCase "local @ shared"]
      dedupeUsers_first[of _ toLowerCase "local @ shared"]
      dedupeUsers_subseq[of toLowerCase "local @ shared"]
      userKey_cases[of r e toLowerCase x n i] pair[unfolded mergeServerUsers_def]
    by blast
qed

text \<open>
  The example of the specification, with ASCII strings: of two records whose emails
  differ in case only, the first one (username \<open>u1\<close>) is the whole result.
\<close>

theorem mergeServerUsers_first_seen_witness:
  "mergeServerUsers asciiLowerCase [exampleUser (Some ''a@x.com'') (Some ''u1'') None]
                    [exampleUser (Some ''A@X.COM'') (Some ''u2'') None]
     = [exampleUser (Some ''a@x.com'') (Some ''u1'') None]
   \<and> asciiLowerCase ''a@x.com'' = asciiLowerCase ''A@X.COM''
   \<and> find (\<lambda>v. userKey asciiLowerCase v
                 = userKey asciiLowerCase (exampleUser (Some ''a@x.com'') (Some ''u1'') None))
        ([exampleUser (Some ''a@x.com'') (Some ''u1'') None] @
         [exampleUser (Some ''A@X.COM'') (Some ''u2'') None])
     = Some (exampleUser (Some ''a@x.com'') (Some ''u1'') None)
   \<and> userKey asciiLowerCase (exampleUser (Some ''A@X.COM'') (Some ''u2'') None) = ''a@x.com''
   \<and> userKey asciiLowerCase (exampleUser None (Some ''Bob'') (Some 7)) = ''m1-bob''
   \<and> userKey asciiLowerCase (exampleUser None None (Some 7)) = ''m1-7''"
  using mergeServerUsers_first_seen[where toLowerCase = asciiLowerCase and
      local = "[exampleUser (Some ''a@x.com'') (Some ''u1'') None]" and
      shared = "[exampleUser (Some ''A@X.COM'') (Some ''u2'') None]" and
      r = "exampleUser (Some ''A@X.COM'') (Some ''u2'') None" and e = "''A@X.COM''" and
      p = "exampleUser (Some ''a@x.com'') (Some ''u1'') None" and ep = "''a@x.com''" and
      q = "exampleUser (Some ''A@X.COM'') (Some ''u2'') None" and eq = "''A@X.COM''"]
  by (simp add: mergeServerUsers_def dedupeUsers_def userKey_def keySource_def exampleUser_def
        asciiLowerCase_def asciiLowerChar_def truthy_def numberToString_def digits.simps
        digitChar_def Let_def)

text \<open>
  Claim C9 as stated fails: two records of one server with no email, uuid or username
  and the numeric ids 1 and 2 do not get the key of the unknown record, and both are
  kept.
\<close>

theorem unknown_key_counterexample:
  "u_email (exampleUser None None (Some 1)) = None
   \<and> u_uuid (exampleUser None None (Some 1)) = None
   \<and> u_username (exampleUser None None (Some 1)) = None
   \<and> u_email (exampleUser None None (Some 2)) = None
   \<and> u_uuid (exampleUser None None (Some 2)) = None
   \<and> u_username (exampleUser None None (Some 2)) = None
   \<and> userKey asciiLowerCase (exampleUser None None (Some 1)) \<noteq> asciiLowerCase (''M1'' @ ''-unknown'')
   \<and> mergeServerUsers asciiLowerCase [exampleUser None None (Some 1)] [exampleUser None None (Some 2)]
       = [exampleUser None None (Some 1), exampleUser None None (Some 2)]"
  by (simp add: mergeServerUsers_def dedupeUsers_def userKey_def keySource_def exampleUser_def
        asciiLowerCase_def asciiLowerChar_def truthy_def numberToString_def digits.simps
        digitChar_def Let_def)

text \<open>
  Claim C9, amended. A record with no email, no uuid, no (non-empty) username and no
  numeric id has the key server identifier, hyphen, \<open>unknown\<close> (lower-cased), and
  the records of one server that are all of this kind are merged into the first of
  them. A record of this kind that has a numeric id has the key server identifier,
  hyphen, id instead; two such records of one server with different ids have
  different keys, and records of one server that are all of this kind, with pairwise
  different ids, are all kept. Lower-casing is the runtime's \<open>toLowerCase\<close>; that
  different ids give different keys rests on it leaving hyphens and digits at the end
  of a string alone.
\<close>

theorem unknown_key_merge:
  "(u_email a = None \<and> u_uuid a = None \<and> \<not> truthy (u_username a) \<and> u_id a = None \<longrightarrow>
      userKey toLowerCase a = toLowerCase (u_serverIdentifier a @ ''-unknown''))
   \<and> ((\<forall>u \<in> set (local @ shared).
          u_email u = None \<and> u_uuid u = None \<and> \<not> truthy (u_username u) \<and> u_id u = None
          \<and> u_serverIdentifier u = sid) \<longrightarrow>
        mergeServerUsers toLowerCase local shared = take 1 (local @ shared))
   \<and> (u_email b = None \<and> u_uuid b = None \<and> \<not> truthy (u_username b) \<and> u_id b = Some i
       \<and> u_email c = None \<and> u_uuid c = None \<and> \<not> truthy (u_username c) \<and> u_id c = Some j
       \<and> u_serverIdentifier b = u_serverIdentifier c \<and> i \<noteq> j \<longrightarrow>
        userKey toLowerCase b = toLowerCase (u_serverIdentifier b @ ''-'' @ numberToString i)
        \<and> (digitsUntouched toLowerCase \<longrightarrow> userKey toLowerCase b \<noteq> userKey toLowerCase c))
   \<and> (digitsUntouched toLowerCase
       \<and> (\<forall>u \<in> set (local @ shared).
          u_email u = None \<and> u_uuid u = None \<and> \<not> truthy (u_username u) \<and> u_id u \<noteq> None
          \<and> u_serverIdentifier u = sid) \<and> distinct (map u_id (local @ shared)) \<longrightarrow>
        mergeServerUsers toLowerCase local shared = local @ shared)"
proof (intro conjI impI)
  assume "u_email a = None \<and> u_uuid a = None \<and> \<not> truthy (u_username a) \<and> u_id a = None"
  then show "userKey toLowerCase a = toLowerCase (u_serverIdentifier a @ ''-unknown'')"
    by (simp add: userKey_def keySource_def)
next
  assume h: "\<forall>u \<in> set (local @ shared).
          u_email u = None \<and> u_uuid u = None \<and> \<not> truthy (u_username u) \<and> u_id u = None
          \<and> u_serverIdentifier u = sid"
  have "\<forall>u \<in> set (local @ shared). userKey toLowerCase u = toLowerCase (sid @ ''-unknown'')"
  proof
    fix u assume "u \<in> set (local @ shared)"
    with h have "u_email u = None \<and> u_uuid u = None \<and> \<not> truthy (u_username u) \<and> u_id u = None
          \<and> u_serverIdentifier u = sid" by blast
    then show "userKey toLowerCase u = toLowerCase (sid @ ''-unknown'')"
      by (simp add: userKey_def keySource_def)
  qed
  then show "mergeServerUsers toLowerCase local shared = take 1 (local @ shared)"
    unfolding mergeServerUsers_def by (rule dedupeUsers_same_key)
next
  assume h: "u_email b = None \<and> u_uuid b = None \<and> \<not> truthy (u_username b) \<and> u_id b = Some i
       \<and> u_email c = None \<and> u_uuid c = None \<and> \<not> truthy (u_username c) \<and> u_id c = Some j
       \<and> u_serverIdentifier b = u_serverIdentifier c \<and> i \<noteq> j"
  from h show "userKey toLowerCase b = toLowerCase (u_serverIdentifier b @ ''-'' @ numberToString i)"
    by (simp add: userKey_def keySource_def)
  assume "digitsUntouched toLowerCase"
  from h userKey_numeric_inj[OF this, of b i c j]
  show "userKey toLowerCase b \<noteq> userKey toLowerCase c" by blast
next
  assume h: "digitsUntouched toLowerCase
       \<and> (\<forall>u \<in> set (local @ shared).
          u_email u = None \<and> u_uuid u = None \<and> \<not> truthy (u_username u) \<and> u_id u \<noteq> None
          \<and> u_serverIdentifier u = sid) \<and> distinct (map u_id (local @ shared))"
  then have "distinct (map (userKey toLowerCase) (local @ shared))"
    using numeric_keys_distinct[of toLowerCase "local @ shared" sid] by blast
  then show "mergeServerUsers toLowerCase local shared = local @ shared"
    unfolding mergeServerUsers_def by (rule dedupeUsers_distinct_keys)
qed

text \<open>
  With ASCII strings, on which the runtime's \<open>toLowerCase\<close> is \<open>asciiLowerCase\<close>: three
  records of one server without any identity are merged into one; the records with the
  ids 1 and 2 have different keys and are both kept.
\<close>

theorem unknown_key_merge_witness:
  "mergeServerUsers asciiLowerCase [exampleUser None None None, exampleUser None (Some []) None]
                    [exampleUser None None None]
     = [exampleUser None None None]
   \<and> digitsUntouched asciiLowerCase
   \<and> userKey asciiLowerCase (exampleUser None None None) = ''m1-unknown''
   \<and> userKey asciiLowerCase (exampleUser None None (Some 1)) = ''m1-1''
   \<and> userKey asciiLowerCase (exampleUser None None (Some 1))
       \<noteq> userKey asciiLowerCase (exampleUser None None (Some 2))
   \<and> mergeServerUsers asciiLowerCase [exampleUser None None (Some 1)] [exampleUser None None (Some 2)]
     = [exampleUser None None (Some 1), exampleUser None None (Some 2)]"
  using unknown_key_merge[where toLowerCase = asciiLowerCase and
      a = "exampleUser None None None" and sid = "''M1''" and
      local = "[exampleUser None None None, exampleUser None (Some []) None]" and
      shared = "[exampleUser None None None]" and
      b = "exampleUser None None (Some 1)" and c = "exampleUser None None (Some 2)" and
      i = 1 and j = 2]
    unknown_key_merge[where toLowerCase = asciiLowerCase and sid = "''M1''" and
      local = "[exampleUser None None (Some 1)]" and
      shared = "[exampleUser None None (Some 2)]"]
    asciiLowerCase_digitsUntouched
  by (simp add: userKey_def keySource_def exampleUser_def
        asciiLowerCase_def asciiLowerChar_def truthy_def numberToString_def digits.simps
        digitChar_def Let_def)


section \<open>The claims on the account manager\<close>

text \<open>
  What \<open>getServers\<close> does in every state a manager can be in: the list returned has at
  most one server per pair of machine identifier and account label; it is a
  subsequence of the concatenation of the accounts' server lists; every server of those
  lists is represented by an entry with the same key, and every entry is the first server
  with its key, where the key is the string made of machine identifier, colon, label.
\<close>

lemma getServers_first_by_key:
  assumes "reachable env accounts st"
  shows "distinct (map (\<lambda>s. (s_machineIdentifier s, s_accountLabel s))
                     (fst (getServers env accounts refresh st)))
   \<and> subseq (fst (getServers env accounts refresh st))
        (concat (map snd (fst (loadAll env refresh accounts st))))
   \<and> (\<forall>p \<in> set (fst (loadAll env refresh accounts st)). \<forall>s \<in> set (snd p).
        \<exists>s' \<in> set (fst (getServers env accounts refresh st)).
          serverKey (s_accountLabel s') s' = serverKey (fst p) s)
   \<and> (\<forall>s \<in> set (fst (getServers env accounts refresh st)).
        find (\<lambda>p. fst p = serverKey (s_accountLabel s) s)
             (keyedServers (fst (loadAll env refresh accounts st)))
          = Some (serverKey (s_accountLabel s) s, s))
   \<and> (\<forall>a b l1 l2. s_machineIdentifier a = s_machineIdentifier b \<longrightarrow>
        (serverKey l1 a = serverKey l2 b \<longleftrightarrow> l1 = l2))"
proof -
  obtain ls st' where l: "loadAll env refresh accounts st = (ls, st')" by force
  let ?own = "\<lambda>s. serverKey (s_accountLabel s) s"
  let ?res = "firstByKey (keyedServers ls) {}"
  have res: "fst (getServers env accounts refresh st) = ?res"
    using l by (simp add: getServers_loadAll)
  from reachable_labelled[OF assms] loadAll_result[OF l]
  have lab: "\<forall>p \<in> set ls. \<forall>s \<in> set (snd p). s_accountLabel s = fst p" by blast
  have own: "\<forall>p \<in> set (keyedServers ls). ?own (snd p) = fst p"
    by (rule keyedServers_own_key[OF lab])
  from firstByKey_keys[of "keyedServers ls" ?own "{}", OF own]
  have d: "distinct (map ?own ?res)" and k: "?own ` set ?res = fst ` set (keyedServers ls)"
    by simp_all
  have "?own = (\<lambda>p. fst p @ '':'' @ snd p) \<circ> (\<lambda>s. (s_machineIdentifier s, s_accountLabel s))"
    by (auto simp: serverKey_def)
  with d have "distinct (map ((\<lambda>p. fst p @ '':'' @ snd p) \<circ> (\<lambda>s. (s_machineIdentifier s, s_accountLabel s))) ?res)"
    by (simp only:)
  then have c1: "distinct (map (\<lambda>s. (s_machineIdentifier s, s_accountLabel s)) ?res)"
    by (rule distinct_map_comp)
  have c2: "subseq ?res (concat (map snd ls))"
    using firstByKey_subseq[of "keyedServers ls" "{}"] by (simp only: keyedServers_values)
  have c3: "\<forall>p \<in> set ls. \<forall>s \<in> set (snd p). \<exists>s' \<in> set ?res. ?own s' = serverKey (fst p) s"
  proof (intro ballI)
    fix p s assume "p \<in> set ls" "s \<in> set (snd p)"
    then have "(serverKey (fst p) s, s) \<in> set (keyedServers ls)" by (rule keyedServers_mem)
    then have "serverKey (fst p) s \<in> fst ` set (keyedServers ls)" by force
    with k have "serverKey (fst p) s \<in> ?own ` set ?res" by simp
    then show "\<exists>s' \<in> set ?res. ?own s' = serverKey (fst p) s" by auto
  qed
  have c4: "\<forall>s \<in> set ?res. find (\<lambda>p. fst p = ?own s) (keyedServers ls) = Some (?own s, s)"
  proof
    fix s assume "s \<in> set ?res"
    from firstByKey_first[OF this] obtain k'
      where f: "find (\<lambda>p. fst p = k') (keyedServers ls) = Some (k', s)" by blast
    then have "(k', s) \<in> set (keyedServers ls)" by (auto simp: find_Some_iff in_set_conv_nth)
    with own have "k' = ?own s" by force
    with f show "find (\<lambda>p. fst p = ?own s) (keyedServers ls) = Some (?own s, s)" by simp
  qed
  have c5: "\<forall>a b l1 l2. s_machineIdentifier a = s_machineIdentifier b \<longrightarrow>
        (serverKey l1 a = serverKey l2 b \<longleftrightarrow> l1 = l2)"
    using serverKey_same_machine by blast
  from l have ls: "fst (loadAll env refresh accounts st) = ls" by simp
  show ?thesis unfolding res ls by (intro conjI c1 c2 c3 c4 c5)
qed

text \<open>
  The key stands for the pair of machine identifier and label as long as no machine
  identifier contains a colon: then every loaded pair has its entry in the result.
\<close>

lemma serverKey_inj:
  assumes "CHR '':'' \<notin> set (s_machineIdentifier a)" and "CHR '':'' \<notin> set (s_machineIdentifier b)"
    and "serverKey l1 a = serverKey l2 b"
  shows "s_machineIdentifier a = s_machineIdentifier b \<and> l1 = l2"
proof -
  have tw: "takeWhile (\<lambda>c. c \<noteq> CHR '':'') (m @ CHR '':'' # l) = m" if "CHR '':'' \<notin> set m" for m l
    using that by (induction m) auto
  from assms(3) have eq: "s_machineIdentifier a @ CHR '':'' # l1 = s_machineIdentifier b @ CHR '':'' # l2"
    by (simp add: serverKey_def)
  then have "takeWhile (\<lambda>c. c \<noteq> CHR '':'') (s_machineIdentifier a @ CHR '':'' # l1)
           = takeWhile (\<lambda>c. c \<noteq> CHR '':'') (s_machineIdentifier b @ CHR '':'' # l2)"
    by (simp only:)
  with tw[OF assms(1)] tw[OF assms(2)] have m: "s_machineIdentifier a = s_machineIdentifier b"
    by (simp only:)
  with eq show ?thesis by simp
qed

lemma getServers_pairs_without_colon:
  assumes "reachable env accounts st"
    and "\<forall>p \<in> set (fst (loadAll env refresh accounts st)). \<forall>s \<in> set (snd p).
           CHR '':'' \<notin> set (s_machineIdentifier s)"
  shows "\<forall>p \<in> set (fst (loadAll env refresh accounts st)). \<forall>s \<in> set (snd p).
           \<exists>s' \<in> set (fst (getServers env accounts refresh st)).
             s_machineIdentifier s' = s_machineIdentifier s \<and> s_accountLabel s' = fst p"
proof (intro ballI)
  fix p s
  assume p: "p \<in> set (fst (loadAll env refresh accounts st))" and s: "s \<in> set (snd p)"
  from getServers_first_by_key[OF assms(1), of refresh] p s obtain s'
    where s': "s' \<in> set (fst (getServers env accounts refresh st))"
      and k: "serverKey (s_accountLabel s') s' = serverKey (fst p) s" by blast
  from s' have "s' \<in> set (firstByKey (keyedServers (fst (loadAll env refresh accounts st))) {})"
    by (simp add: getServers_loadAll)
  from subsetD[OF firstByKey_set this]
  have "s' \<in> snd ` set (keyedServers (fst (loadAll env refresh accounts st)))" .
  then have "s' \<in> set (concat (map snd (fst (loadAll env refresh accounts st))))"
    using keyedServers_values[of "fst (loadAll env refresh accounts st)"] by (metis set_map)
  then obtain q where "q \<in> set (fst (loadAll env refresh accounts st))" "s' \<in> set (snd q)" by auto
  with assms(2) have c': "CHR '':'' \<notin> set (s_machineIdentifier s')" by blast
  from assms(2) p s have c: "CHR '':'' \<notin> set (s_machineIdentifier s)" by blast
  from serverKey_inj[OF c' c k] s'
  show "\<exists>s' \<in> set (fst (getServers env accounts refresh st)).
             s_machineIdentifier s' = s_machineIdentifier s \<and> s_accountLabel s' = fst p" by blast
qed

text \<open>
  Claim C2 does not hold of the code: the key that stands for the pair of machine
  identifier and label is the two joined by a colon, and two different pairs can give the
  same key. Three accounts with the different labels \<open>x:a\<close>, \<open>a\<close> and \<open>b\<close>, the first
  seeing the machine \<open>M1\<close>, the other two the machine \<open>M1:x\<close>: the server of the account
  \<open>a\<close> is loaded and cached, its key \<open>M1:x:a\<close> is that of the first account's server,
  and it is left out of the result, which has one entry for the machine \<open>M1:x\<close> where
  the claim has two, one per account.
\<close>

theorem getServers_key_collision:
  "distinct (map a_label collisionAccounts)
   \<and> fst (loadAll collisionEnv False collisionAccounts (initialState 1000))
       = [(''x:a'', [exampleServer ''M1'' ''x:a'']),
          (''a'', [exampleServer ''M1:x'' ''a'']),
          (''b'', [exampleServer ''M1:x'' ''b''])]
   \<and> map_option ce_value
        (store (serverCache (snd (getServers collisionEnv collisionAccounts False (initialState 1000))))
           ''servers:a'')
       = Some [exampleServer ''M1:x'' ''a'']
   \<and> serverKey ''a'' (exampleServer ''M1:x'' ''a'') = serverKey ''x:a'' (exampleServer ''M1'' ''x:a'')
   \<and> fst (getServers collisionEnv collisionAccounts False (initialState 1000))
       = [exampleServer ''M1'' ''x:a'', exampleServer ''M1:x'' ''b'']"
  by (simp add: example_defs collisionEnv_def collisionAccounts_def)

text \<open>
  Claim C4. After \<open>getServers(false)\<close> has returned, a second \<open>getServers(false)\<close> on the
  same server-list tier, at whose clock readings (one per account, in order) no
  account's entry has expired, changes nothing but the count of clock readings: the
  trace of remote requests and \<open>connectToServer\<close> invocations is as before, so no
  \<open>getResources\<close> and no \<open>connectToServer\<close> has run. Every account has an entry
  after the first call, so the condition on the entries is about all accounts. With
  pairwise different account labels, as the data model of the specification requires,
  the list returned is the list of the first call.
\<close>

theorem getServers_twice:
  assumes "getServers env accounts False st = (servers, st1)"
    and "serverCache st2 = serverCache st1"
    and "\<forall>i < length accounts. \<forall>entry.
           store (serverCache st1) (''servers:'' @ a_label (accounts ! i)) = Some entry \<longrightarrow>
           e_now env (reads st2 + i) \<le> ce_expiresAt entry"
  shows "snd (getServers env accounts False st2) = st2\<lparr>reads := reads st2 + length accounts\<rparr>
         \<and> trace (snd (getServers env accounts False st2)) = trace st2
         \<and> (\<forall>a \<in> set accounts. \<exists>entry. store (serverCache st1) (''servers:'' @ a_label a) = Some entry)
         \<and> (distinct (map a_label accounts) \<longrightarrow> fst (getServers env accounts False st2) = servers)"
proof -
  have ent: "\<forall>a \<in> set accounts. \<exists>entry. store (serverCache st1) (''servers:'' @ a_label a) = Some entry"
    using getServers_entries[OF assms(1)] by blast
  have "\<forall>i < length accounts. \<exists>entry.
      store (serverCache st2) (''servers:'' @ a_label (accounts ! i)) = Some entry
      \<and> e_now env (reads st2 + i) \<le> ce_expiresAt entry"
  proof (intro allI impI)
    fix i assume i: "i < length accounts"
    then have "accounts ! i \<in> set accounts" by simp
    with ent obtain entry where e: "store (serverCache st1) (''servers:'' @ a_label (accounts ! i)) = Some entry"
      by blast
    with assms(3) i have "e_now env (reads st2 + i) \<le> ce_expiresAt entry" by blast
    with e assms(2) show "\<exists>entry.
      store (serverCache st2) (''servers:'' @ a_label (accounts ! i)) = Some entry
      \<and> e_now env (reads st2 + i) \<le> ce_expiresAt entry" by simp
  qed
  from getServers_loop_hits[OF this, of "([], {})"]
  have s: "snd (getServers env accounts False st2) = st2\<lparr>reads := reads st2 + length accounts\<rparr>"
    by (simp add: getServers_def)
  then have t: "trace (snd (getServers env accounts False st2)) = trace st2" by simp
  have "fst (getServers env accounts False st2) = servers" if d: "distinct (map a_label accounts)"
  proof -
    from assms(1) have "getServers_loop env False accounts ([], {}) st = (servers, st1)"
      by (simp add: getServers_def)
    from getServers_loop_again[OF this d assms(2) assms(3)]
    show ?thesis by (simp add: getServers_def)
  qed
  with s t ent show ?thesis by blast
qed

text \<open>
  With the clock standing still, the second call on the state left by the first returns
  the same two servers and only advances the count of clock readings from 2 to 4.
\<close>

theorem getServers_twice_witness:
  "getServers (exampleEnv exampleResources []) exampleAccounts False
     (snd (getServers (exampleEnv exampleResources []) exampleAccounts False (initialState 1000)))
   = ([exampleServer ''M1'' ''a'', exampleServer ''M1'' ''b''],
      (snd (getServers (exampleEnv exampleResources []) exampleAccounts False (initialState 1000)))
        \<lparr>reads := 4\<rparr>)"
proof -
  let ?env = "exampleEnv exampleResources []"
  let ?st1 = "snd (getServers ?env exampleAccounts False (initialState 1000))"
  have d: "distinct (map a_label exampleAccounts)"
    by (simp add: exampleAccounts_def exampleAccount_def)
  have f: "getServers ?env exampleAccounts False (initialState 1000)
             = ([exampleServer ''M1'' ''a'', exampleServer ''M1'' ''b''], ?st1)"
    by (simp add: example_getServers)
  have c: "serverCache ?st1 = serverCache ?st1" by simp
  have t: "\<forall>i < length exampleAccounts. \<forall>entry.
             store (serverCache ?st1) (''servers:'' @ a_label (exampleAccounts ! i)) = Some entry \<longrightarrow>
             e_now ?env (reads ?st1 + i) \<le> ce_expiresAt entry"
    unfolding example_getServers snd_conv
    by (auto simp: exampleAccounts_def exampleAccount_def exampleEnv_def
          less_Suc_eq numeral_2_eq_2)
  have r: "reads ?st1 = 2" by (simp add: example_getServers)
  have l: "length exampleAccounts = 2" by (simp add: exampleAccounts_def)
  from getServers_twice[OF f c t] d show ?thesis
    by (simp add: r l prod_eq_iff)
qed

text \<open>
  Claim C5. A query whose trimmed form is empty gets the empty result, and the state is
  unchanged: neither \<open>getUsersAcrossServers\<close> nor any remote operation has run. A
  query that is not blank gets the empty result as well when the aggregation returns no
  users, in the state the aggregation leaves. Trimming is the runtime's \<open>trim\<close>,
  whatever it removes.
\<close>

theorem searchUsers_empty:
  "(e_trim env query = [] \<longrightarrow>
      searchUsers fuse env accounts query maxResults refresh st = (Inr emptyResult, st))
   \<and> (e_trim env query \<noteq> [] \<and> getUsersAcrossServers env accounts refresh st = (Inr [], st') \<longrightarrow>
        searchUsers fuse env accounts query maxResults refresh st = (Inr emptyResult, st'))
   \<and> emptyResult = \<lparr>matches = [], totalMatched = 0, totalSearched = 0\<rparr>"
  by (simp add: searchUsers_def emptyResult_def Let_def)

text \<open>
  With ASCII strings: a query of white space only leaves the initial state untouched;
  the query \<open>bob\<close> over a service without users gets the empty result after the
  aggregation.
\<close>

theorem searchUsers_empty_witness:
  "searchUsers (\<lambda>users query limit. []) (exampleEnv exampleResources []) exampleAccounts
     [CHR 0x20, CHR 0x09, CHR 0x20] None False (initialState 1000)
     = (Inr \<lparr>matches = [], totalMatched = 0, totalSearched = 0\<rparr>, initialState 1000)
   \<and> searchUsers (\<lambda>users query limit. []) (exampleEnv exampleResources []) exampleAccounts
     '' bob '' None False (initialState 1000)
     = (Inr \<lparr>matches = [], totalMatched = 0, totalSearched = 0\<rparr>,
        snd (getUsersAcrossServers (exampleEnv exampleResources []) exampleAccounts False
               (initialState 1000)))"
proof -
  let ?env = "exampleEnv exampleResources []"
  have u: "getUsersAcrossServers ?env exampleAccounts False (initialState 1000)
             = (Inr [], snd (getUsersAcrossServers ?env exampleAccounts False (initialState 1000)))"
    using example_no_users by (simp add: prod_eq_iff)
  from searchUsers_empty[where query = "[CHR 0x20, CHR 0x09, CHR 0x20]" and env = ?env and
      accounts = exampleAccounts and refresh = False and st = "initialState 1000" and
      fuse = "\<lambda>users query limit. []" and maxResults = None]
    searchUsers_empty[where query = "'' bob ''" and env = ?env and
      accounts = exampleAccounts and refresh = False and st = "initialState 1000" and
      fuse = "\<lambda>users query limit. []" and maxResults = None and
      st' = "snd (getUsersAcrossServers ?env exampleAccounts False (initialState 1000))"]
    u example_trim
  show ?thesis by simp
qed

text \<open>
  Claim C6. For a query that is not blank over a non-empty aggregated user list, with
  the fuzzy matcher of the specification over a similarity measure whose scores lie
  between 0 and 1: \<open>searchUsers\<close> returns at most \<open>maxResults\<close> matches (25 by
  default), sorted by ascending score, every score between 0 and 1, every matched
  record one of the aggregated users; \<open>totalSearched\<close> is the number of aggregated
  users and \<open>totalMatched\<close> the number of returned matches. When every user matches,
  the number of matches is the smaller of \<open>maxResults\<close> and the number of users.
\<close>

theorem searchUsers_ranked:
  assumes "\<forall>u s ms. similarity (e_trim env query) u = Some (s, ms) \<longrightarrow> 0 \<le> s \<and> s \<le> 1"
    and "e_trim env query \<noteq> []"
    and "getUsersAcrossServers env accounts refresh st = (Inr users, st')"
    and "users \<noteq> []"
  shows "\<exists>res. searchUsers (fuzzySearch similarity) env accounts query maxResults refresh st = (Inr res, st')
      \<and> length (matches res) \<le> (case maxResults of Some n \<Rightarrow> n | None \<Rightarrow> 25)
      \<and> sorted (map m_score (matches res))
      \<and> (\<forall>m \<in> set (matches res). 0 \<le> m_score m \<and> m_score m \<le> 1)
      \<and> totalSearched res = length users
      \<and> totalMatched res = length (matches res)
      \<and> m_user ` set (matches res) \<subseteq> set users
      \<and> ((\<forall>u \<in> set users. similarity (e_trim env query) u \<noteq> None) \<longrightarrow>
           totalMatched res = min (case maxResults of Some n \<Rightarrow> n | None \<Rightarrow> 25) (length users))"
proof -
  let ?limit = "case maxResults of Some n \<Rightarrow> n | None \<Rightarrow> 25"
  let ?results = "fuzzySearch similarity users (e_trim env query) ?limit"
  let ?res = "\<lparr>matches = map toSearchMatch ?results, totalMatched = length ?results,
               totalSearched = length users\<rparr>"
  have run: "searchUsers (fuzzySearch similarity) env accounts query maxResults refresh st = (Inr ?res, st')"
    using assms(2,3,4) by (simp add: searchUsers_def Let_def)
  have len: "length (matches ?res) \<le> ?limit" by (simp add: fuzzySearch_length)
  have srt: "sorted (map m_score (matches ?res))"
    by (simp only: SearchResult.simps m_score_toSearchMatch fuzzySearch_sorted)
  have rng: "\<forall>m \<in> set (matches ?res). 0 \<le> m_score m \<and> m_score m \<le> 1"
  proof
    fix m assume "m \<in> set (matches ?res)"
    then obtain r where r: "r \<in> set ?results" and m: "m = toSearchMatch r" by auto
    from fuzzySearch_mem[OF r] obtain s ms
      where "similarity (e_trim env query) (fr_item r) = Some (s, ms)" "fr_score r = Some s" by blast
    moreover from this assms(1) have "0 \<le> s \<and> s \<le> 1" by blast
    ultimately show "0 \<le> m_score m \<and> m_score m \<le> 1" using m by (simp add: toSearchMatch_def)
  qed
  have usr: "m_user ` set (matches ?res) \<subseteq> set users"
  proof
    fix u assume "u \<in> m_user ` set (matches ?res)"
    then obtain r where r: "r \<in> set ?results" and u: "u = fr_item r"
      by (auto simp: toSearchMatch_def)
    from fuzzySearch_mem[OF r] u show "u \<in> set users" by blast
  qed
  have all: "(\<forall>u \<in> set users. similarity (e_trim env query) u \<noteq> None) \<longrightarrow>
           totalMatched ?res = min ?limit (length users)"
    by (simp add: fuzzySearch_length_all)
  from run len srt rng usr all show ?thesis
    by (intro exI[of _ ?res]) simp
qed

text \<open>
  Ten users that all match with the same score and \<open>maxResults = 1\<close>: exactly one
  match, \<open>totalMatched = 1\<close> and \<open>totalSearched = 10\<close>.
\<close>

theorem searchUsers_ranked_witness:
  "\<exists>res. searchUsers (fuzzySearch (\<lambda>query user. Some (0, [])))
            (exampleEnv [exampleResource ''M1''] exampleNodes) [exampleAccount ''a'']
            '' bob '' (Some 1) False (initialState 1000)
          = (Inr res, snd (getUsersAcrossServers (exampleEnv [exampleResource ''M1''] exampleNodes)
                             [exampleAccount ''a''] False (initialState 1000)))
        \<and> length (matches res) = 1 \<and> totalMatched res = 1 \<and> totalSearched res = 10"
proof -
  let ?env = "exampleEnv [exampleResource ''M1''] exampleNodes"
  let ?users = "map (\<lambda>n. mapAccountNode n (exampleServer ''M1'' ''a'') ''a'') exampleNodes"
  let ?sim = "\<lambda>(query :: string) (user :: PlexUserAccess). Some (0 :: real, [] :: FuseMatch list)"
  have h1: "\<forall>u s ms. ?sim (e_trim ?env '' bob '') u = Some (s, ms) \<longrightarrow> 0 \<le> s \<and> s \<le> 1" by simp
  have h2: "e_trim ?env '' bob '' \<noteq> []" using example_trim by simp
  have h3: "getUsersAcrossServers ?env [exampleAccount ''a''] False (initialState 1000)
             = (Inr ?users, snd (getUsersAcrossServers ?env [exampleAccount ''a''] False (initialState 1000)))"
    using example_users by (simp add: prod_eq_iff)
  have h4: "?users \<noteq> []" by (simp add: exampleNodes_def)
  from searchUsers_ranked[where similarity = ?sim and maxResults = "Some 1", OF h1 h2 h3 h4]
  show ?thesis by (auto simp: exampleNodes_def)
qed

text \<open>
  Claim C7. \<open>validateAccounts\<close> returns one result per account, in the order of the
  accounts and under their labels, and makes one validation request per account. The
  result at position \<open>i\<close> is determined by account \<open>i\<close> and the answer to its own
  request; the requests made do not depend on any answer. When that answer is a failure
  or has no user, the result is the label with \<open>valid = false\<close> and nothing else.
\<close>

theorem validateAccounts_each_account:
  "length (fst (validateAccounts env accounts st)) = length accounts
   \<and> map v_label (fst (validateAccounts env accounts st)) = map a_label accounts
   \<and> trace (snd (validateAccounts env accounts st)) =
       trace st @ map (\<lambda>a. ValidateRequest (a_token a) (a_clientIdentifier a)) accounts
   \<and> (\<forall>i < length accounts.
        fst (validateAccounts env accounts st) ! i =
          validationResult (accounts ! i)
            (tokenInfo (e_validate env
               (trace st @ map (\<lambda>a. ValidateRequest (a_token a) (a_clientIdentifier a))
                              (take (Suc i) accounts)))))
   \<and> (\<forall>i < length accounts.
        e_validate env
           (trace st @ map (\<lambda>a. ValidateRequest (a_token a) (a_clientIdentifier a))
                          (take (Suc i) accounts)) \<in> {ValidateFailed, ValidateNoUser} \<longrightarrow>
        fst (validateAccounts env accounts st) ! i =
          \<lparr>v_label = a_label (accounts ! i), v_valid = False, v_username = None, v_email = None\<rparr>)"
proof -
  have len: "length (fst (validateAccounts env accounts st)) = length accounts"
    by (simp add: validateAccounts_def validateAccounts_loop_length)
  have nth: "fst (validateAccounts env accounts st) ! i =
          validationResult (accounts ! i)
            (tokenInfo (e_validate env
               (trace st @ map (\<lambda>a. ValidateRequest (a_token a) (a_clientIdentifier a))
                              (take (Suc i) accounts))))" if "i < length accounts" for i
    using validateAccounts_loop_nth[OF that, of env "[]" st] by (simp add: validateAccounts_def)
  have lab: "v_label (validationResult a info) = a_label a" for a info
    by (simp add: validationResult_def split: option.splits prod.splits)
  have "map v_label (fst (validateAccounts env accounts st)) = map a_label accounts"
    by (rule nth_equalityI) (simp_all add: len nth lab)
  moreover have "trace (snd (validateAccounts env accounts st)) =
       trace st @ map (\<lambda>a. ValidateRequest (a_token a) (a_clientIdentifier a)) accounts"
    by (simp add: validateAccounts_def validateAccounts_loop_state)
  moreover have "fst (validateAccounts env accounts st) ! i =
          \<lparr>v_label = a_label (accounts ! i), v_valid = False, v_username = None, v_email = None\<rparr>"
    if "i < length accounts" and "e_validate env
           (trace st @ map (\<lambda>a. ValidateRequest (a_token a) (a_clientIdentifier a))
                          (take (Suc i) accounts)) \<in> {ValidateFailed, ValidateNoUser}" for i
    using nth[OF that(1)] that(2) by (auto simp: validationResult_def tokenInfo_def)
  ultimately show ?thesis using len nth by blast
qed

text \<open>
  The validation of the first account fails, that of the second succeeds: both results
  are there, in order.
\<close>

theorem validateAccounts_each_account_witness:
  "fst (validateAccounts (exampleEnv [] []) [exampleAccount ''a'', exampleAccount ''b''] (initialState 1000))
     = [\<lparr>v_label = ''a'', v_valid = False, v_username = None, v_email = None\<rparr>,
        \<lparr>v_label = ''b'', v_valid = True, v_username = Some ''user'', v_email = Some ''user@x.com''\<rparr>]"
  using validateAccounts_each_account[where env = "exampleEnv [] []" and
      accounts = "[exampleAccount ''a'', exampleAccount ''b'']" and st = "initialState 1000"]
  by (simp add: validateAccounts_def validateToken_eq exampleEnv_def exampleAccount_def
        initialState_def validationResult_def tokenInfo_def truthy_def)

text \<open>
  Claim C8. When the PIN creation request fails, \<open>generateAuthPin\<close> fails with that
  error, and it fails exactly when the answer carries no PIN; in every case the state
  changes by exactly one remote request in the trace, and by nothing else (no cache is
  written). The same holds for \<open>checkAuthPinStatus\<close> and the PIN poll request.
\<close>

theorem pin_failure_propagated:
  "(e_createPin env (trace st @ [CreatePinRequest (case cid of Some c \<Rightarrow> c | None \<Rightarrow> e_uuid env (trace st))])
       = PinFailed message \<longrightarrow>
      fst (generateAuthPin env cid st) = Inl (RequestFailed message))
   \<and> (isl (fst (generateAuthPin env cid st)) \<longleftrightarrow>
        (\<forall>i c x t. e_createPin env (trace st @ [CreatePinRequest (case cid of Some c \<Rightarrow> c | None \<Rightarrow> e_uuid env (trace st))])
            \<noteq> PinData i c x t))
   \<and> snd (generateAuthPin env cid st) =
        st\<lparr>trace := trace st @ [CreatePinRequest (case cid of Some c \<Rightarrow> c | None \<Rightarrow> e_uuid env (trace st))]\<rparr>
   \<and> (e_checkPin env (trace st @ [CheckPinRequest n ident]) = PinFailed message \<longrightarrow>
        fst (checkAuthPinStatus env n ident st) = Inl (RequestFailed message))
   \<and> (isl (fst (checkAuthPinStatus env n ident st)) \<longleftrightarrow>
        (\<forall>i c x t. e_checkPin env (trace st @ [CheckPinRequest n ident]) \<noteq> PinData i c x t))
   \<and> snd (checkAuthPinStatus env n ident st) = st\<lparr>trace := trace st @ [CheckPinRequest n ident]\<rparr>"
proof (intro conjI impI)
  assume "e_createPin env (trace st @ [CreatePinRequest (case cid of Some c \<Rightarrow> c | None \<Rightarrow> e_uuid env (trace st))])
       = PinFailed message"
  then show "fst (generateAuthPin env cid st) = Inl (RequestFailed message)"
    by (intro generateAuthPin_error) (simp add: pinResult_def)
next
  show "isl (fst (generateAuthPin env cid st)) \<longleftrightarrow>
        (\<forall>i c x t. e_createPin env (trace st @ [CreatePinRequest (case cid of Some c \<Rightarrow> c | None \<Rightarrow> e_uuid env (trace st))])
            \<noteq> PinData i c x t)"
    by (simp only: generateAuthPin_isl pinResult_isl)
next
  show "snd (generateAuthPin env cid st) =
        st\<lparr>trace := trace st @ [CreatePinRequest (case cid of Some c \<Rightarrow> c | None \<Rightarrow> e_uuid env (trace st))]\<rparr>"
    by (simp only: generateAuthPin_state request_def)
next
  assume "e_checkPin env (trace st @ [CheckPinRequest n ident]) = PinFailed message"
  then show "fst (checkAuthPinStatus env n ident st) = Inl (RequestFailed message)"
    by (simp add: checkAuthPinStatus_def checkAuthPin_eq pinResult_def)
next
  show "isl (fst (checkAuthPinStatus env n ident st)) \<longleftrightarrow>
        (\<forall>i c x t. e_checkPin env (trace st @ [CheckPinRequest n ident]) \<noteq> PinData i c x t)"
    by (simp add: checkAuthPinStatus_def checkAuthPin_eq pinResult_isl)
next
  show "snd (checkAuthPinStatus env n ident st) = st\<lparr>trace := trace st @ [CheckPinRequest n ident]\<rparr>"
    by (simp add: checkAuthPinStatus_def checkAuthPin_eq request_def)
qed

text \<open>
  Against a service whose PIN requests time out, both operations return that error after
  one request.
\<close>

theorem pin_failure_propagated_witness:
  "generateAuthPin (exampleEnv [] []) None (initialState 1000) =
     (Inl (RequestFailed ''timeout''), (initialState 1000)\<lparr>trace := [CreatePinRequest ''uuid'']\<rparr>)
   \<and> checkAuthPinStatus (exampleEnv [] []) 7 ''client'' (initialState 1000) =
     (Inl (RequestFailed ''timeout''), (initialState 1000)\<lparr>trace := [CheckPinRequest 7 ''client'']\<rparr>)"
  using pin_failure_propagated[where env = "exampleEnv [] []" and cid = None and
      st = "initialState 1000" and message = "''timeout''" and n = 7 and ident = "''client''"]
  by (simp add: exampleEnv_def initialState_def prod_eq_iff)

text \<open>
  Claim C10. In every state a manager can be in, every server returned by
  \<open>getServers\<close> has the label of a configured account, so that \<open>findTokenForAccount\<close>
  and \<open>findClientIdentifier\<close> succeed on it, and \<open>getUsersAcrossServers\<close> never ends
  in the error of an unknown label: it always returns a user list.
\<close>

theorem getServers_labels_configured:
  assumes "reachable env accounts st"
  shows "(\<forall>s \<in> set (fst (getServers env accounts refresh st)).
            s_accountLabel s \<in> a_label ` set accounts
            \<and> (\<exists>token. findTokenForAccount accounts (s_accountLabel s) = Inr token)
            \<and> (\<exists>cid. findClientIdentifier accounts (s_accountLabel s) = Inr cid))
         \<and> (\<exists>users. fst (getUsersAcrossServers env accounts refresh st) = Inr users)"
proof -
  note c = reachable_labelled[OF assms]
  have labs: "\<forall>s \<in> set (fst (getServers env accounts refresh st)).
                s_accountLabel s \<in> a_label ` set accounts"
    using getServers_labels[OF c] by blast
  have "\<exists>token. findTokenForAccount accounts label = Inr token"
    and "\<exists>cid. findClientIdentifier accounts label = Inr cid"
    if "label \<in> a_label ` set accounts" for label
    using find_label[OF that]
    by (auto simp: findTokenForAccount_def findClientIdentifier_def)
  with labs have first: "\<forall>s \<in> set (fst (getServers env accounts refresh st)).
            s_accountLabel s \<in> a_label ` set accounts
            \<and> (\<exists>token. findTokenForAccount accounts (s_accountLabel s) = Inr token)
            \<and> (\<exists>cid. findClientIdentifier accounts (s_accountLabel s) = Inr cid)" by blast
  obtain servers st1 where g: "getServers env accounts refresh st = (servers, st1)" by force
  with labs have "\<forall>s \<in> set servers. s_accountLabel s \<in> a_label ` set accounts" by simp
  from getUsers_loop_ok[OF this, of env refresh "[]" st1] g
  have "\<exists>users. fst (getUsersAcrossServers env accounts refresh st) = Inr users"
    by (simp add: getUsersAcrossServers_def)
  with first show ?thesis by blast
qed

text \<open>
  On the example service both returned servers carry the labels of the two accounts, the
  look-ups succeed and the aggregation returns the users of both servers.
\<close>

theorem getServers_labels_configured_witness:
  "fst (getServers (exampleEnv exampleResources [exampleNode 1]) exampleAccounts False
          (initialState 1000))
     = [exampleServer ''M1'' ''a'', exampleServer ''M1'' ''b'']
   \<and> findTokenForAccount exampleAccounts ''b'' = Inr ''token''
   \<and> findClientIdentifier exampleAccounts ''b'' = Inr ''client''
   \<and> fst (getUsersAcrossServers (exampleEnv exampleResources [exampleNode 1]) exampleAccounts False
            (initialState 1000))
     = Inr [mapAccountNode (exampleNode 1) (exampleServer ''M1'' ''a'') ''a'',
            mapAccountNode (exampleNode 1) (exampleServer ''M1'' ''b'') ''b'']"
proof -
  have servers: "fst (getServers (exampleEnv exampleResources [exampleNode 1]) exampleAccounts False
          (initialState 1000)) = [exampleServer ''M1'' ''a'', exampleServer ''M1'' ''b'']"
    by (simp add: example_getServers)
  have found: "findTokenForAccount exampleAccounts ''b'' = Inr ''token''"
    "findClientIdentifier exampleAccounts ''b'' = Inr ''client''"
    by (simp_all add: findTokenForAccount_def findClientIdentifier_def exampleAccounts_def
          exampleAccount_def)
  from getServers_labels_configured[OF r_init[where cacheTtlMs = 1000],
      where env = "exampleEnv exampleResources [exampleNode 1]"
      and accounts = exampleAccounts and refresh = False]
    servers found example_two_users
  show ?thesis by blast
qed

end
